theory Spec2Isabelle
  imports Complex_Main "HOL-Library.AList"
begin

section \<open>The Plot panel's data pipeline\<close>

text \<open>
  A shallow embedding of the data pipeline of the Plot panel (the panel component in
  \<^verbatim>\<open>src/unnamed/part_003\<close>): the view selection, the topic-to-paths index, the
  restore callback, the block accumulator \<^verbatim>\<open>getBlockItemsByPath\<close>, the streaming
  reducer \<^verbatim>\<open>addMessages\<close> and the merge of the two views.

  Conventions.
  \<^item> A JavaScript object with string keys, and a \<^verbatim>\<open>Map\<close>, is an association list in
    insertion order; reading a key is \<open>map_of\<close>, writing one is \<open>AList.update\<close> (an
    existing key keeps its place, a new key goes to the end), \<^verbatim>\<open>Object.keys\<close> is
    \<open>map fst\<close>. Properties inherited from \<^verbatim>\<open>Object.prototype\<close> and the numeric-key
    ordering of \<^verbatim>\<open>Object.entries\<close> are not modelled.
  \<^item> \<^verbatim>\<open>undefined\<close> is \<open>None\<close>.
  \<^item> A JavaScript number is a real number; \<^verbatim>\<open>NaN\<close> is \<open>None\<close> where a conversion
    can produce it. Rounding of double arithmetic and the infinities are not modelled.
  \<^item> Functions imported from other packages (the message path parser and evaluator,
    the \<^verbatim>\<open>rostime\<close> arithmetic, the string to number conversion) are parameters
    of the definitions that call them.
\<close>

subsection \<open>Data\<close>

text \<open>\<^verbatim>\<open>Time\<close> of the rostime package: seconds and nanoseconds.\<close>

record Time =
  sec :: int
  nsec :: int

text \<open>
  \<^verbatim>\<open>toSec\<close> as the rostime package computes it (\<^verbatim>\<open>sec + nsec * 1e-9\<close>), over the
  reals. The definitions below take \<^verbatim>\<open>toSec\<close> as a parameter; this instance is used
  for the concrete runs.
\<close>

definition rostime_toSec :: "Time \<Rightarrow> real" where
  "rostime_toSec t = real_of_int (sec t) + real_of_int (nsec t) / 1000000000"

text \<open>\<^verbatim>\<open>subtract\<close> of the rostime package, without renormalisation; used for concrete runs.\<close>

definition rostime_subtract :: "Time \<Rightarrow> Time \<Rightarrow> Time" where
  "rostime_subtract a b = \<lparr>sec = sec a - sec b, nsec = nsec a - nsec b\<rparr>"

text \<open>\<^verbatim>\<open>PlotXAxisVal\<close>: the x-axis modes of the panel configuration.\<close>

datatype PlotXAxisVal = Timestamp | Index | Custom | CurrentCustom

text \<open>
  \<^verbatim>\<open>ChartDefaultView\<close>: \<^verbatim>\<open>{type: "fixed", minXValue, maxXValue}\<close> or
  \<^verbatim>\<open>{type: "following", width}\<close>.
\<close>

datatype ChartDefaultView =
  Fixed (minXValue: real) (maxXValue: real)
  | Following (width: real)

text \<open>The result of \<^verbatim>\<open>parseRosPath\<close>; only the topic name is read here.\<close>

record RosPath =
  topicName :: string

text \<open>A configured path: \<^verbatim>\<open>{value, enabled, ...}\<close>; only \<^verbatim>\<open>value\<close> is read here.\<close>

record BasePlotPath =
  pathValue :: string
  enabled :: bool

subsection \<open>View selection\<close>


definition timeSincePreloadedStart ::
  "(Time \<Rightarrow> real) \<Rightarrow> (Time \<Rightarrow> Time \<Rightarrow> Time) \<Rightarrow> PlotXAxisVal \<Rightarrow> Time option \<Rightarrow> Time option
     \<Rightarrow> real option" where
  "timeSincePreloadedStart toSec subtractTimes xAxisVal startTime time =
     (case (time, startTime) of
        (Some t, Some s) \<Rightarrow>
          if xAxisVal = Timestamp then Some (toSec (subtractTimes t s)) else None
      | _ \<Rightarrow> None)"

text \<open>
  \<^verbatim>\<open>followingViewWidth != undefined && +followingViewWidth > 0\<close>: \<open>toNumber\<close> is the
  unary plus on the configured string, \<open>None\<close> when it yields \<^verbatim>\<open>NaN\<close>, and
  \<^verbatim>\<open>NaN > 0\<close> is false.
\<close>

definition followingView :: "(string \<Rightarrow> real option) \<Rightarrow> string option \<Rightarrow> ChartDefaultView option" where
  "followingView toNumber followingViewWidth =
     (case followingViewWidth of
        None \<Rightarrow> None
      | Some s \<Rightarrow>
          (case toNumber s of
             None \<Rightarrow> None
           | Some w \<Rightarrow> if w > 0 then Some (Following w) else None))"

definition fixedView ::
  "PlotXAxisVal \<Rightarrow> Time option \<Rightarrow> real option \<Rightarrow> ChartDefaultView option" where
  "fixedView xAxisVal startTime endTimeSinceStart =
     (case endTimeSinceStart of
        None \<Rightarrow> None
      | Some e \<Rightarrow>
          if xAxisVal = Timestamp \<and> startTime \<noteq> None then Some (Fixed 0 e) else None)"

definition defaultView ::
  "ChartDefaultView option \<Rightarrow> ChartDefaultView option \<Rightarrow> ChartDefaultView option" where
  "defaultView fixedV followingV =
     (case followingV of
        Some v \<Rightarrow> Some v
      | None \<Rightarrow> (case fixedV of Some v \<Rightarrow> Some v | None \<Rightarrow> None))"

text \<open>The three memos as the component composes them.\<close>

definition Plot_defaultView ::
  "(string \<Rightarrow> real option) \<Rightarrow> (Time \<Rightarrow> real) \<Rightarrow> (Time \<Rightarrow> Time \<Rightarrow> Time) \<Rightarrow> string option
     \<Rightarrow> PlotXAxisVal \<Rightarrow> Time option \<Rightarrow> Time option \<Rightarrow> ChartDefaultView option" where
  "Plot_defaultView toNumber toSec subtractTimes followingViewWidth xAxisVal startTime endTime =
     defaultView
       (fixedView xAxisVal startTime
          (timeSincePreloadedStart toSec subtractTimes xAxisVal startTime endTime))
       (followingView toNumber followingViewWidth)"

subsection \<open>Paths and the topic-to-paths index\<close>

text \<open>
  \<^verbatim>\<open>yAxisPaths.map(({ value }) => value).concat(compact([xAxisPath?.value]))\<close>:
  \<^verbatim>\<open>compact\<close> drops \<^verbatim>\<open>undefined\<close> and the empty string.
\<close>

definition allPaths :: "BasePlotPath list \<Rightarrow> BasePlotPath option \<Rightarrow> string list" where
  "allPaths yAxisPaths xAxisPath =
     map pathValue yAxisPaths @
     (case xAxisPath of
        None \<Rightarrow> []
      | Some p \<Rightarrow> if pathValue p = [] then [] else [pathValue p])"

text \<open>One iteration of the loop that builds the index.\<close>

definition topicToPaths_step ::
  "(string \<Rightarrow> RosPath option) \<Rightarrow> string \<Rightarrow> (string \<times> string list) list
     \<Rightarrow> (string \<times> string list) list" where
  "topicToPaths_step parseRosPath path out =
     (case parseRosPath path of
        None \<Rightarrow> out
      | Some rosPath \<Rightarrow>
          (let existing = (case map_of out (topicName rosPath) of None \<Rightarrow> [] | Some e \<Rightarrow> e)
           in AList.update (topicName rosPath) (existing @ [path]) out))"

definition topicToPaths ::
  "(string \<Rightarrow> RosPath option) \<Rightarrow> string list \<Rightarrow> (string \<times> string list) list" where
  "topicToPaths parseRosPath paths = fold (topicToPaths_step parseRosPath) paths []"

text \<open>The paths of a list that parse to a given topic, in the list's order.\<close>

definition parsesTo :: "(string \<Rightarrow> RosPath option) \<Rightarrow> string \<Rightarrow> string \<Rightarrow> bool" where
  "parsesTo parseRosPath t path =
     (case parseRosPath path of None \<Rightarrow> False | Some rosPath \<Rightarrow> topicName rosPath = t)"

subsection \<open>Restore\<close>

text \<open>
  The restore callback. The values of the mapping are whatever the object holds (in the
  store model below, references to range lists); restore copies them as they are.
\<close>

definition restore_step ::
  "(string \<times> 'v) list \<Rightarrow> string \<Rightarrow> (string \<times> 'v) list \<Rightarrow> (string \<times> 'v) list" where
  "restore_step previous path updated =
     (case map_of previous path of
        None \<Rightarrow> updated
      | Some plotData \<Rightarrow> AList.update path plotData updated)"

definition restore :: "string list \<Rightarrow> (string \<times> 'v) list option \<Rightarrow> (string \<times> 'v) list" where
  "restore paths previous =
     (case previous of
        None \<Rightarrow> []
      | Some prev \<Rightarrow> fold (restore_step prev) paths [])"

subsection \<open>Merge\<close>

text \<open>The object spread \<^verbatim>\<open>{ ...a, ...b }\<close>.\<close>

definition spread :: "(string \<times> 'v) list \<Rightarrow> (string \<times> 'v) list \<Rightarrow> (string \<times> 'v) list" where
  "spread a b = fold (\<lambda>(k, v). AList.update k v) b (fold (\<lambda>(k, v). AList.update k v) a [])"

definition allPlotData :: "(string \<times> 'v) list \<Rightarrow> (string \<times> 'v) list \<Rightarrow> (string \<times> 'v) list" where
  "allPlotData plotDataByPath plotDataForBlocks = spread plotDataByPath plotDataForBlocks"

subsection \<open>Samples, events and the store\<close>

text \<open>\<^verbatim>\<open>PlotDataItem\<close>: one sample.\<close>

record 'q PlotDataItem =
  queriedData :: 'q
  receiveTime :: Time
  headerStamp :: "Time option"

text \<open>\<^verbatim>\<open>MessageEvent\<close>: its \<^verbatim>\<open>receiveTime\<close> is the field \<open>eventReceiveTime\<close>.\<close>

record 'm MessageEvent =
  topic :: string
  eventReceiveTime :: Time
  message :: 'm

text \<open>
  An element of \<^verbatim>\<open>MessageDataItemsByPath\<close>: the event and what the path extracted
  from it (\<^verbatim>\<open>queriedData\<close>, here the field \<open>extractedData\<close>).
\<close>

record ('m, 'q) MessageAndData =
  messageEvent :: "'m MessageEvent"
  extractedData :: 'q

text \<open>
  The reducer writes into the object and the arrays it is given, and what it returns is
  compared by identity, so the mutable values live in a store, at references:
  \<^item> \<open>objects\<close>: the \<^verbatim>\<open>PlotDataByPath\<close> objects, each a list of properties from a path
    to the reference of its range list;
  \<^item> \<open>rangeLists\<close>: the arrays of type \<^verbatim>\<open>PlotDataItem[][]\<close>, each a list of references
    to ranges;
  \<^item> \<open>ranges\<close>: the arrays of type \<^verbatim>\<open>PlotDataItem[]\<close>;
  \<^item> \<open>nextRef\<close>: the next unused reference; the references below it are the allocated
    ones.
  Samples are never written after they are built and are values. An object that is
  only read after it is built (the result of the block accumulator, a block's cached
  result) is passed as its property list.
\<close>

type_synonym ref = nat

record 'q store =
  objects :: "ref \<Rightarrow> (string \<times> ref) list"
  rangeLists :: "ref \<Rightarrow> ref list"
  ranges :: "ref \<Rightarrow> 'q PlotDataItem list"
  nextRef :: ref

definition newRange :: "'q PlotDataItem list \<Rightarrow> 'q store \<Rightarrow> ref \<times> 'q store" where
  "newRange items s =
     (nextRef s, s\<lparr>ranges := (ranges s)(nextRef s := items), nextRef := Suc (nextRef s)\<rparr>)"

definition newRangeList :: "ref list \<Rightarrow> 'q store \<Rightarrow> ref \<times> 'q store" where
  "newRangeList rs s =
     (nextRef s, s\<lparr>rangeLists := (rangeLists s)(nextRef s := rs), nextRef := Suc (nextRef s)\<rparr>)"

definition newObject :: "(string \<times> ref) list \<Rightarrow> 'q store \<Rightarrow> ref \<times> 'q store" where
  "newObject props s =
     (nextRef s, s\<lparr>objects := (objects s)(nextRef s := props), nextRef := Suc (nextRef s)\<rparr>)"

text \<open>\<^verbatim>\<open>obj[key] = r\<close>.\<close>

definition setProp :: "ref \<Rightarrow> string \<Rightarrow> ref \<Rightarrow> 'q store \<Rightarrow> 'q store" where
  "setProp obj key r s = s\<lparr>objects := (objects s)(obj := AList.update key r (objects s obj))\<rparr>"

text \<open>\<^verbatim>\<open>array.push(item)\<close> on a range.\<close>

definition push :: "ref \<Rightarrow> 'q PlotDataItem \<Rightarrow> 'q store \<Rightarrow> 'q store" where
  "push r item s = s\<lparr>ranges := (ranges s)(r := ranges s r @ [item])\<rparr>"

text \<open>The range lists of a property list, read out of the store as values.\<close>

definition rangesOf :: "'q store \<Rightarrow> ref \<Rightarrow> 'q PlotDataItem list list" where
  "rangesOf s r = map (ranges s) (rangeLists s r)"

text \<open>
  What the code can raise or fall into: a \<^verbatim>\<open>TypeError\<close> (a method call on
  \<^verbatim>\<open>undefined\<close>), and a \<^verbatim>\<open>for ... of\<close> over an array that the loop body
  extends, which never ends.
\<close>

datatype error = TypeError | NonTermination

text \<open>A \<^verbatim>\<open>for\<close> loop whose body can fail: the first failure ends it.\<close>

fun foldE :: "('s \<Rightarrow> 'a \<Rightarrow> error + 's) \<Rightarrow> 's \<Rightarrow> 'a list \<Rightarrow> error + 's" where
  "foldE f s [] = Inr s"
| "foldE f s (x # xs) = (case f s x of Inl e \<Rightarrow> Inl e | Inr s' \<Rightarrow> foldE f s' xs)"

subsection \<open>Per-block samples\<close>

definition plotDataItemOfMessage ::
  "('m \<Rightarrow> Time option) \<Rightarrow> ('m, 'q) MessageAndData \<Rightarrow> 'q PlotDataItem" where
  "plotDataItemOfMessage getTimestampForMessage messageAndData =
     \<lparr>queriedData = extractedData messageAndData,
      receiveTime = eventReceiveTime (messageEvent messageAndData),
      headerStamp = getTimestampForMessage (message (messageEvent messageAndData))\<rparr>"

text \<open>
  \<^verbatim>\<open>getPlotDataByPath\<close>: for every path of the decoded block, a new range list of
  exactly one new range.
\<close>

definition getPlotDataByPath_entry ::
  "('m \<Rightarrow> Time option) \<Rightarrow> string \<times> ('m, 'q) MessageAndData list
     \<Rightarrow> (string \<times> ref) list \<times> 'q store \<Rightarrow> (string \<times> ref) list \<times> 'q store" where
  "getPlotDataByPath_entry getTimestampForMessage entry st =
     (let (r0, s1) = newRange (map (plotDataItemOfMessage getTimestampForMessage) (snd entry)) (snd st);
          (r1, s2) = newRangeList [r0] s1
      in (AList.update (fst entry) r1 (fst st), s2))"

definition getPlotDataByPath ::
  "('m \<Rightarrow> Time option) \<Rightarrow> (string \<times> ('m, 'q) MessageAndData list) list \<Rightarrow> 'q store
     \<Rightarrow> (string \<times> ref) list \<times> 'q store" where
  "getPlotDataByPath getTimestampForMessage itemsByPath s =
     fold (getPlotDataByPath_entry getTimestampForMessage) itemsByPath ([], s)"

subsection \<open>The block accumulator\<close>

text \<open>
  \<^verbatim>\<open>getBlockItemsByPath\<close>. Its parameter \<open>messagePathItemsForBlock\<close> is the memoised
  \<^verbatim>\<open>getMessagePathItemsForBlock\<close> applied to the decoder: it gives the cached, frozen
  result of a block, an object from each path of the block to a range list in the store
  (as \<open>getPlotDataByPath\<close> builds it). The state of the loop is \<^verbatim>\<open>ret\<close>,
  \<^verbatim>\<open>lastBlockIndexForPath\<close> and the store.

  The loop \<^verbatim>\<open>for (const item of pathItems) currentRange.push(item)\<close> appends the
  items of \<^verbatim>\<open>pathItems\<close> to \<^verbatim>\<open>currentRange\<close> when the two are different arrays, and
  never ends when they are the same array.
\<close>

definition lastElement :: "'a list \<Rightarrow> 'a option" where
  "lastElement xs = (if xs = [] then None else Some (last xs))"

text \<open>\<^verbatim>\<open>ret[path] ?? []\<close>: the range list of the path in \<^verbatim>\<open>ret\<close>, or a new empty one.\<close>

definition existingItemsOf :: "(string \<times> ref) list \<Rightarrow> string \<Rightarrow> 'q store \<Rightarrow> ref \<times> 'q store" where
  "existingItemsOf ret path s =
     (case map_of ret path of Some r \<Rightarrow> (r, s) | None \<Rightarrow> newRangeList [] s)"

text \<open>\<^verbatim>\<open>const [pathItems] = messagePathItems\<close>: the first range, if there is one.\<close>

definition firstOf :: "'q store \<Rightarrow> ref \<Rightarrow> ref option" where
  "firstOf s messagePathItems =
     (case rangeLists s messagePathItems of [] \<Rightarrow> None | r # rest \<Rightarrow> Some r)"

definition pushAll :: "ref \<Rightarrow> ref \<Rightarrow> 'q store \<Rightarrow> error + 'q store" where
  "pushAll currentRange pathItems s =
     (if currentRange = pathItems then Inl NonTermination
      else Inr (s\<lparr>ranges := (ranges s)
                  (currentRange := ranges s currentRange @ ranges s pathItems)\<rparr>))"

text \<open>The branch that continues from the previous block index.\<close>

definition continueRange :: "ref \<Rightarrow> ref option \<Rightarrow> 'q store \<Rightarrow> error + 'q store" where
  "continueRange existingItems pathItems s =
     (case (lastElement (rangeLists s existingItems), pathItems) of
        (Some currentRange, Some items) \<Rightarrow> pushAll currentRange items s
      | _ \<Rightarrow> Inr s)"

text \<open>The branch that starts a new range: \<^verbatim>\<open>existingItems.push(pathItems.slice())\<close>.\<close>

definition startRange :: "ref \<Rightarrow> ref option \<Rightarrow> 'q store \<Rightarrow> 'q store" where
  "startRange existingItems pathItems s =
     (case pathItems of
        None \<Rightarrow> s
      | Some items \<Rightarrow>
          (let (r, s1) = newRange (ranges s items) s
           in s1\<lparr>rangeLists := (rangeLists s1)(existingItems := rangeLists s1 existingItems @ [r])\<rparr>))"

text \<open>The body of the inner loop: block index \<open>i\<close>, one entry of the block's object.\<close>

definition getBlockItemsByPath_entry ::
  "int \<Rightarrow> (string \<times> ref) list \<times> (string \<times> int) list \<times> 'q store \<Rightarrow> string \<times> ref
     \<Rightarrow> error + (string \<times> ref) list \<times> (string \<times> int) list \<times> 'q store" where
  "getBlockItemsByPath_entry i st entry =
     (case st of (ret, lastBlockIndexForPath, s) \<Rightarrow>
      case entry of (path, messagePathItems) \<Rightarrow>
       (let (existingItems, s1) = existingItemsOf ret path s;
            pathItems = firstOf s1 messagePathItems
        in case
             (if map_of lastBlockIndexForPath path = Some (i - 1)
              then continueRange existingItems pathItems s1
              else Inr (startRange existingItems pathItems s1))
           of
             Inl e \<Rightarrow> Inl e
           | Inr s2 \<Rightarrow>
               Inr (AList.update path existingItems ret,
                    AList.update path i lastBlockIndexForPath, s2)))"

definition getBlockItemsByPath_block ::
  "('b \<Rightarrow> (string \<times> ref) list) \<Rightarrow> (string \<times> ref) list \<times> (string \<times> int) list \<times> 'q store
     \<Rightarrow> nat \<times> 'b \<Rightarrow> error + (string \<times> ref) list \<times> (string \<times> int) list \<times> 'q store" where
  "getBlockItemsByPath_block messagePathItemsForBlock st ib =
     foldE (getBlockItemsByPath_entry (int (fst ib))) st (messagePathItemsForBlock (snd ib))"

definition getBlockItemsByPath ::
  "('b \<Rightarrow> (string \<times> ref) list) \<Rightarrow> 'b list \<Rightarrow> 'q store
     \<Rightarrow> error + (string \<times> ref) list \<times> 'q store" where
  "getBlockItemsByPath messagePathItemsForBlock blocks s =
     (case foldE (getBlockItemsByPath_block messagePathItemsForBlock) ([], [], s)
             (zip [0..<length blocks] blocks) of
        Inl e \<Rightarrow> Inl e
      | Inr (ret, lastBlockIndexForPath, s') \<Rightarrow> Inr (ret, s'))"

text \<open>The memo \<^verbatim>\<open>plotDataForBlocks\<close> and the keys \<^verbatim>\<open>blockPaths\<close> taken from it.\<close>

definition plotDataForBlocks ::
  "bool \<Rightarrow> ('b \<Rightarrow> (string \<times> ref) list) \<Rightarrow> 'b list \<Rightarrow> 'q store
     \<Rightarrow> error + (string \<times> ref) list \<times> 'q store" where
  "plotDataForBlocks singleCurrentMessage messagePathItemsForBlock blocks s =
     (if singleCurrentMessage then Inr ([], s)
      else getBlockItemsByPath messagePathItemsForBlock blocks s)"

definition blockPaths :: "(string \<times> ref) list \<Rightarrow> string list" where
  "blockPaths blockData = map fst blockData"

text \<open>
  The segment rule in the words of the specification, for one path: \<open>cs\<close> lists, block
  by block, the samples the block contributes to the path (\<open>None\<close> when it has none for
  the path). The state is the last block index that contributed and the ranges so far.
\<close>

definition segmentStep ::
  "nat option \<times> 'a list list \<Rightarrow> nat \<times> 'a list option \<Rightarrow> nat option \<times> 'a list list" where
  "segmentStep st ic =
     (case snd ic of
        None \<Rightarrow> st
      | Some xs \<Rightarrow>
          (Some (fst ic),
           if (case fst st of None \<Rightarrow> False | Some j \<Rightarrow> fst ic = Suc j) \<and> snd st \<noteq> []
           then butlast (snd st) @ [last (snd st) @ xs]
           else snd st @ [xs]))"

definition segments :: "'a list option list \<Rightarrow> 'a list list" where
  "segments cs = snd (foldl segmentStep (None, []) (zip [0..<length cs] cs))"

subsection \<open>The streaming reducer\<close>

text \<open>
  What \<^verbatim>\<open>addMessages\<close> closes over: the memoised values of the component and the
  imported functions it calls.
\<close>

record ('m, 'q) closure =
  cl_toSec :: "Time \<Rightarrow> real"
  cl_getTimestampForMessage :: "'m \<Rightarrow> Time option"
  cl_cachedGetMessagePathDataItems :: "string \<Rightarrow> 'm MessageEvent \<Rightarrow> 'q option"
  cl_topicToPaths :: "(string \<times> string list) list"
  cl_blockPathsMemo :: "string list"
  cl_followingView :: "ChartDefaultView option"
  cl_showSingleCurrentMessage :: bool

text \<open>
  Modelled from the spec: \<^verbatim>\<open>filterMap\<close> of the package \<^verbatim>\<open>den/collection\<close> is not
  under \<^verbatim>\<open>src/\<close>; the trim is specified as dropping the samples for which the
  callback returns \<^verbatim>\<open>undefined\<close> and keeping the others in their order.
\<close>

definition filterMap :: "('a \<Rightarrow> 'b option) \<Rightarrow> 'a list \<Rightarrow> 'b list" where
  "filterMap f xs = concat (map (\<lambda>x. case f x of None \<Rightarrow> [] | Some y \<Rightarrow> [y]) xs)"

definition truncateOlder ::
  "(Time \<Rightarrow> real) \<Rightarrow> Time \<Rightarrow> real \<Rightarrow> 'q PlotDataItem list \<Rightarrow> 'q PlotDataItem list" where
  "truncateOlder toSec lastEventTime w plotDataItems =
     (let minStamp = toSec lastEventTime - w
      in filterMap (\<lambda>item. if toSec (receiveTime item) < minStamp then None else Some item)
           plotDataItems)"

definition plotDataItemOfEvent ::
  "('m, 'q) closure \<Rightarrow> 'm MessageEvent \<Rightarrow> 'q \<Rightarrow> 'q PlotDataItem" where
  "plotDataItemOfEvent cl msgEvent dataItem =
     \<lparr>queriedData = dataItem,
      receiveTime = eventReceiveTime msgEvent,
      headerStamp = cl_getTimestampForMessage cl (message msgEvent)\<rparr>"

text \<open>\<^verbatim>\<open>accumulated[path] = [[plotDataItem]]\<close>.\<close>

definition replaceItem :: "ref \<Rightarrow> string \<Rightarrow> 'q PlotDataItem \<Rightarrow> 'q store \<Rightarrow> 'q store" where
  "replaceItem accumulated path plotDataItem s =
     (let (r0, s1) = newRange [plotDataItem] s;
          (r1, s2) = newRangeList [r0] s1
      in setProp accumulated path r1 s2)"

text \<open>\<^verbatim>\<open>accumulated[path] ??= [[]]\<close>: the range list of the path, made if there is none.\<close>

definition ensureRangeList :: "ref \<Rightarrow> string \<Rightarrow> 'q store \<Rightarrow> ref \<times> 'q store" where
  "ensureRangeList accumulated path s =
     (case map_of (objects s accumulated) path of
        Some r \<Rightarrow> (r, s)
      | None \<Rightarrow>
          (let (r0, s1) = newRange [] s;
               (r1, s2) = newRangeList [r0] s1
           in (r1, setProp accumulated path r1 s2)))"

text \<open>
  The truncation of following mode: \<^verbatim>\<open>plotDataPath[0] = filterMap(plotDataItems, ...)\<close>
  under \<^verbatim>\<open>lastEventTime && isFollowing\<close>, where \<open>rest\<close> is the range list after its
  first element.
\<close>

definition truncateRange ::
  "('m, 'q) closure \<Rightarrow> Time option \<Rightarrow> ref \<Rightarrow> ref \<Rightarrow> ref list \<Rightarrow> 'q store \<Rightarrow> 'q store" where
  "truncateRange cl lastEventTime plotDataPath plotDataItems rest s =
     (case (lastEventTime, cl_followingView cl) of
        (Some t, Some (Following w)) \<Rightarrow>
          (let (r, s1) = newRange (truncateOlder (cl_toSec cl) t w (ranges s plotDataItems)) s
           in s1\<lparr>rangeLists := (rangeLists s1)(plotDataPath := r # rest)\<rparr>)
      | _ \<Rightarrow> s)"

text \<open>
  The branch of normal mode: the push onto \<^verbatim>\<open>plotDataPath[0]!\<close>, a \<^verbatim>\<open>TypeError\<close>
  when the range list is empty, and then the truncation.
\<close>

definition appendItem ::
  "('m, 'q) closure \<Rightarrow> Time option \<Rightarrow> ref \<Rightarrow> string \<Rightarrow> 'q PlotDataItem \<Rightarrow> 'q store
     \<Rightarrow> error + 'q store" where
  "appendItem cl lastEventTime accumulated path plotDataItem s =
     (let (plotDataPath, s1) = ensureRangeList accumulated path s
      in case rangeLists s1 plotDataPath of
           [] \<Rightarrow> Inl TypeError
         | plotDataItems # rest \<Rightarrow>
             Inr (truncateRange cl lastEventTime plotDataPath plotDataItems rest
                    (push plotDataItems plotDataItem s1)))"

text \<open>The body of the inner loop: one event and one of the paths of its topic.\<close>

definition addMessages_path ::
  "('m, 'q) closure \<Rightarrow> Time option \<Rightarrow> ref \<Rightarrow> 'm MessageEvent \<Rightarrow> 'q store \<times> bool \<Rightarrow> string
     \<Rightarrow> error + 'q store \<times> bool" where
  "addMessages_path cl lastEventTime accumulated msgEvent st path =
     (if path \<in> set (cl_blockPathsMemo cl) then Inr st
      else case cl_cachedGetMessagePathDataItems cl path msgEvent of
             None \<Rightarrow> Inr st
           | Some dataItem \<Rightarrow>
               if cl_showSingleCurrentMessage cl
               then Inr (replaceItem accumulated path
                           (plotDataItemOfEvent cl msgEvent dataItem) (fst st), True)
               else (case appendItem cl lastEventTime accumulated path
                            (plotDataItemOfEvent cl msgEvent dataItem) (fst st) of
                       Inl e \<Rightarrow> Inl e
                     | Inr s' \<Rightarrow> Inr (s', True)))"

text \<open>The body of the outer loop: one event.\<close>

definition addMessages_event ::
  "('m, 'q) closure \<Rightarrow> Time option \<Rightarrow> ref \<Rightarrow> 'q store \<times> bool \<Rightarrow> 'm MessageEvent
     \<Rightarrow> error + 'q store \<times> bool" where
  "addMessages_event cl lastEventTime accumulated st msgEvent =
     (case map_of (cl_topicToPaths cl) (topic msgEvent) of
        None \<Rightarrow> Inr st
      | Some paths \<Rightarrow> foldE (addMessages_path cl lastEventTime accumulated msgEvent) st paths)"

text \<open>
  \<^verbatim>\<open>addMessages\<close>: the state of the loops is the store and the flag \<^verbatim>\<open>changed\<close>;
  the result is the reference returned and the store.
\<close>

definition addMessages ::
  "('m, 'q) closure \<Rightarrow> ref \<Rightarrow> 'm MessageEvent list \<Rightarrow> 'q store \<Rightarrow> error + ref \<times> 'q store" where
  "addMessages cl accumulated msgEvents s =
     (let lastEventTime =
            (if msgEvents = [] then None else Some (eventReceiveTime (last msgEvents)))
      in case foldE (addMessages_event cl lastEventTime accumulated) (s, False) msgEvents of
           Inl e \<Rightarrow> Inl e
         | Inr (s', changed) \<Rightarrow>
             if \<not> changed then Inr (accumulated, s')
             else Inr (newObject (objects s' accumulated) s'))"

text \<open>
  Which samples a batch yields. \<open>dispatch\<close> lists the pairs of an event and a path that
  the two loops visit, in their order; \<open>extracted\<close> is the sample such a pair yields,
  none when the path is served by the blocks or the path extracts nothing from the
  event; \<open>samplesFor\<close> lists the samples of a batch for one path.
\<close>

definition dispatch :: "('m, 'q) closure \<Rightarrow> 'm MessageEvent list \<Rightarrow> ('m MessageEvent \<times> string) list" where
  "dispatch cl msgEvents =
     concat (map (\<lambda>msgEvent.
        case map_of (cl_topicToPaths cl) (topic msgEvent) of
          None \<Rightarrow> []
        | Some paths \<Rightarrow> map (Pair msgEvent) paths) msgEvents)"

definition extracted :: "('m, 'q) closure \<Rightarrow> 'm MessageEvent \<Rightarrow> string \<Rightarrow> 'q PlotDataItem option" where
  "extracted cl msgEvent path =
     (if path \<in> set (cl_blockPathsMemo cl) then None
      else map_option (plotDataItemOfEvent cl msgEvent)
             (cl_cachedGetMessagePathDataItems cl path msgEvent))"

definition samplesFor :: "('m, 'q) closure \<Rightarrow> 'm MessageEvent list \<Rightarrow> string \<Rightarrow> 'q PlotDataItem list" where
  "samplesFor cl msgEvents path =
     List.map_filter (\<lambda>(msgEvent, p). if p = path then extracted cl msgEvent p else None)
       (dispatch cl msgEvents)"

subsection \<open>Predicates of the statements\<close>

text \<open>
  A block's cached result as \<open>getPlotDataByPath\<close> builds it: distinct paths, and for each
  path an allocated range list of exactly one allocated range.
\<close>

definition blockOk :: "'q store \<Rightarrow> (string \<times> ref) list \<Rightarrow> bool" where
  "blockOk s obj \<longleftrightarrow>
     distinct (map fst obj)
     \<and> (\<forall>(p, r) \<in> set obj. r < nextRef s
           \<and> (case rangeLists s r of [r0] \<Rightarrow> r0 < nextRef s | _ \<Rightarrow> False))"

text \<open>The samples a block's cached result holds for a path, if it has the path.\<close>

definition contribution :: "'q store \<Rightarrow> (string \<times> ref) list \<Rightarrow> string \<Rightarrow> 'q PlotDataItem list option" where
  "contribution s obj path =
     (case map_of obj path of
        None \<Rightarrow> None
      | Some r \<Rightarrow> (case rangeLists s r of [] \<Rightarrow> None | r0 # rest \<Rightarrow> Some (ranges s r0)))"


text \<open>
  No range list of the accumulated object is empty; the reducer keeps it so, and only
  writes \<^verbatim>\<open>[[plotDataItem]]\<close>, \<^verbatim>\<open>[[]]\<close> and a first element.
\<close>

definition nonEmptyRangeLists :: "'q store \<Rightarrow> ref \<Rightarrow> bool" where
  "nonEmptyRangeLists s acc \<longleftrightarrow> (\<forall>(p, r) \<in> set (objects s acc). rangeLists s r \<noteq> [])"

text \<open>The first range of a path in the accumulated object, empty when there is none.\<close>

definition firstRange :: "'q store \<Rightarrow> ref \<Rightarrow> string \<Rightarrow> 'q PlotDataItem list" where
  "firstRange s acc path =
     (case map_of (objects s acc) path of
        None \<Rightarrow> []
      | Some r \<Rightarrow> (case rangeLists s r of [] \<Rightarrow> [] | r0 # rest \<Rightarrow> ranges s r0))"

text \<open>
  The range list of a path and its ranges are allocated, and no other path of the
  accumulated object has the same range list or has one of these ranges as the first
  range of its list.
\<close>

definition unshared :: "'q store \<Rightarrow> ref \<Rightarrow> string \<Rightarrow> bool" where
  "unshared s acc path \<longleftrightarrow>
     (case map_of (objects s acc) path of
        None \<Rightarrow> True
      | Some rp \<Rightarrow>
          rp < nextRef s \<and> (\<forall>r \<in> set (rangeLists s rp). r < nextRef s)
          \<and> (\<forall>(q, r) \<in> set (objects s acc).
                q \<noteq> path \<longrightarrow>
                  r \<noteq> rp \<and> (case rangeLists s r of [] \<Rightarrow> True
                             | r0 # rest \<Rightarrow> r0 \<notin> set (rangeLists s rp))))"

text \<open>The closure with the paths served by the blocks taken out of the index.\<close>

definition withoutBlockPaths :: "('m, 'q) closure \<Rightarrow> ('m, 'q) closure" where
  "withoutBlockPaths cl =
     cl\<lparr>cl_topicToPaths :=
          map (\<lambda>(t, paths). (t, filter (\<lambda>p. p \<notin> set (cl_blockPathsMemo cl)) paths))
            (cl_topicToPaths cl)\<rparr>"

text \<open>
  The restore callback on the store: a new object that holds, for the current paths,
  the range lists of the previous object.
\<close>

definition restoreObject :: "string list \<Rightarrow> ref option \<Rightarrow> 'q store \<Rightarrow> ref \<times> 'q store" where
  "restoreObject paths previous s = newObject (restore paths (map_option (objects s) previous)) s"

text \<open>
  The accumulated object as restore and the reducer make it: allocated, with distinct
  paths; every range list allocated, of exactly one allocated range; no range list and
  no range shared by two paths.
\<close>

definition streamOk :: "'q store \<Rightarrow> ref \<Rightarrow> bool" where
  "streamOk s acc \<longleftrightarrow>
     acc < nextRef s \<and> blockOk s (objects s acc)
     \<and> distinct (map snd (objects s acc))
     \<and> distinct (map (\<lambda>(p, r). hd (rangeLists s r)) (objects s acc))"

subsection \<open>Invariants of the loops\<close>

text \<open>The two loops of the reducer as one loop over the pairs of \<open>dispatch\<close>.\<close>

abbreviation "pathStep cl t acc \<equiv> (\<lambda>st (ev, p). addMessages_path cl t acc ev st p)"

definition samplesIn :: "('m, 'q) closure \<Rightarrow> ('m MessageEvent \<times> string) list \<Rightarrow> string \<Rightarrow> 'q PlotDataItem list" where
  "samplesIn cl pairs path =
     List.map_filter (\<lambda>(msgEvent, p). if p = path then extracted cl msgEvent p else None) pairs"

text \<open>The truncation that applies to a batch, if any.\<close>

definition trimOf :: "('m, 'q) closure \<Rightarrow> Time option \<Rightarrow> ('q PlotDataItem list \<Rightarrow> 'q PlotDataItem list) option" where
  "trimOf cl t = (case (t, cl_followingView cl) of
      (Some T, Some (Following w)) \<Rightarrow> Some (truncateOlder (cl_toSec cl) T w) | _ \<Rightarrow> None)"




definition entriesOk :: "'q store \<Rightarrow> (string \<times> ref) list \<Rightarrow> bool" where
  "entriesOk s obj \<longleftrightarrow>
     (\<forall>(p, r) \<in> set obj. r < nextRef s
           \<and> (case rangeLists s r of [r0] \<Rightarrow> r0 < nextRef s | _ \<Rightarrow> False))"



text \<open>The same in terms of lookups, for the proofs.\<close>

definition streamInv :: "'q store \<Rightarrow> ref \<Rightarrow> bool" where
  "streamInv s acc \<longleftrightarrow>
     (\<forall>p r. map_of (objects s acc) p = Some r \<longrightarrow>
        r < nextRef s \<and> (\<exists>r0. rangeLists s r = [r0] \<and> r0 < nextRef s))
     \<and> (\<forall>p q r r'. p \<noteq> q \<longrightarrow> map_of (objects s acc) p = Some r \<longrightarrow>
          map_of (objects s acc) q = Some r' \<longrightarrow>
            r \<noteq> r' \<and> hd (rangeLists s r) \<noteq> hd (rangeLists s r'))"

text \<open>
  What a list of samples, pushed one by one, makes of a first range: in
  single-current-message mode each replaces it, otherwise each is appended and the
  truncation applied.
\<close>

definition appendAll ::
  "('m, 'q) closure \<Rightarrow> Time option \<Rightarrow> 'q PlotDataItem list \<Rightarrow> 'q PlotDataItem list
     \<Rightarrow> 'q PlotDataItem list" where
  "appendAll cl t xs items =
     foldl (\<lambda>xs item. if cl_showSingleCurrentMessage cl then [item]
                        else (case trimOf cl t of None \<Rightarrow> xs @ [item] | Some f \<Rightarrow> f (xs @ [item])))
       xs items"

subsection \<open>Concrete data for the runs\<close>

text \<open>
  Messages are integers; a path extracts the integer itself, and nothing from a negative
  one. The index has the path \<open>/a.x\<close> on the topic \<open>/a\<close> and \<open>/b.y\<close> on \<open>/b\<close>.
  In \<open>exStore\<close> the accumulated object is at reference 0: \<open>/a.x\<close> holds the samples
  at the seconds 0 to 10, \<open>/b.y\<close> one sample. In \<open>exEmptyStore\<close> the accumulated
  object is empty. In \<open>exBlockStore\<close> the blocks 0 and 2 have cached samples for the
  path \<open>P\<close> and block 1 has none.
\<close>

definition exSample :: "int \<Rightarrow> int \<Rightarrow> int PlotDataItem" where
  "exSample t v = \<lparr>queriedData = v, receiveTime = \<lparr>sec = t, nsec = 0\<rparr>, headerStamp = None\<rparr>"

definition exEvent :: "string \<Rightarrow> int \<Rightarrow> int \<Rightarrow> int MessageEvent" where
  "exEvent tp t v = \<lparr>topic = tp, eventReceiveTime = \<lparr>sec = t, nsec = 0\<rparr>, message = v\<rparr>"

definition exClosure :: "bool \<Rightarrow> ChartDefaultView option \<Rightarrow> string list \<Rightarrow> (int, int) closure" where
  "exClosure single view served =
     \<lparr>cl_toSec = rostime_toSec,
      cl_getTimestampForMessage = (\<lambda>m. None),
      cl_cachedGetMessagePathDataItems = (\<lambda>path ev. if message ev < 0 then None else Some (message ev)),
      cl_topicToPaths = [(''/a'', [''/a.x'']), (''/b'', [''/b.y''])],
      cl_blockPathsMemo = served,
      cl_followingView = view,
      cl_showSingleCurrentMessage = single\<rparr>"

definition exStore :: "int store" where
  "exStore =
     \<lparr>objects = (\<lambda>r. [])(0 := [(''/a.x'', 1), (''/b.y'', 3)]),
      rangeLists = (\<lambda>r. [])(1 := [2], 3 := [4]),
      ranges = (\<lambda>r. [])
        (2 := [exSample 0 1, exSample 1 1, exSample 2 1, exSample 3 1, exSample 4 1, exSample 5 1,
               exSample 6 1, exSample 7 1, exSample 8 1, exSample 9 1, exSample 10 1],
         4 := [exSample 3 7]),
      nextRef = 5\<rparr>"




section \<open>Properties\<close>

lemmas ex_defs = exSample_def exEvent_def exClosure_def exStore_def
lemmas store_defs = newRange_def newRangeList_def newObject_def setProp_def push_def rangesOf_def
lemmas reducer_defs = addMessages_def addMessages_event_def addMessages_path_def appendItem_def
  replaceItem_def ensureRangeList_def truncateRange_def truncateOlder_def filterMap_def
  plotDataItemOfEvent_def rostime_toSec_def Let_def

subsection \<open>View selection\<close>

text \<open>
  Claim C7. The published default view is the following view of the configured width
  whenever that width, converted to a number, is strictly positive; otherwise it is the
  fixed view from 0 to the end time since the start when the x-axis mode is timestamp
  and both the start and the end time are known; otherwise it is undefined. So
  following wins over fixed when both are computable, and a missing, non-numeric or
  non-positive width gives no following view.
\<close>

theorem defaultView_selection:
  "Plot_defaultView toNumber toSec subtractTimes followingViewWidth xAxisVal startTime endTime =
     (if (\<exists>w. Option.bind followingViewWidth toNumber = Some w \<and> 0 < w)
      then Some (Following (the (Option.bind followingViewWidth toNumber)))
      else if xAxisVal = Timestamp \<and> startTime \<noteq> None \<and> endTime \<noteq> None
      then Some (Fixed 0 (toSec (subtractTimes (the endTime) (the startTime))))
      else None)"
  by (auto simp add: Plot_defaultView_def defaultView_def fixedView_def followingView_def
      timeSincePreloadedStart_def split: option.splits)

text \<open>
  A run: with both times known in timestamp mode, the width \<open>5\<close> gives the following
  view, and the width \<open>0\<close> falls back to the fixed view over the 60 seconds of data.
\<close>

theorem defaultView_selection_witness:
  "Plot_defaultView (\<lambda>s. if s = ''5'' then Some 5 else if s = ''0'' then Some 0 else None)
      rostime_toSec rostime_subtract (Some ''5'') Timestamp
      (Some \<lparr>sec = 10, nsec = 0\<rparr>) (Some \<lparr>sec = 70, nsec = 0\<rparr>) = Some (Following 5)
   \<and> Plot_defaultView (\<lambda>s. if s = ''5'' then Some 5 else if s = ''0'' then Some 0 else None)
      rostime_toSec rostime_subtract (Some ''0'') Timestamp
      (Some \<lparr>sec = 10, nsec = 0\<rparr>) (Some \<lparr>sec = 70, nsec = 0\<rparr>) = Some (Fixed 0 60)"
  using
    defaultView_selection [of "\<lambda>s. if s = ''5'' then Some 5 else if s = ''0'' then Some 0 else None"
      rostime_toSec rostime_subtract "Some ''5''" Timestamp
      "Some \<lparr>sec = 10, nsec = 0\<rparr>" "Some \<lparr>sec = 70, nsec = 0\<rparr>"]
    defaultView_selection [of "\<lambda>s. if s = ''5'' then Some 5 else if s = ''0'' then Some 0 else None"
      rostime_toSec rostime_subtract "Some ''0''" Timestamp
      "Some \<lparr>sec = 10, nsec = 0\<rparr>" "Some \<lparr>sec = 70, nsec = 0\<rparr>"]
  by (simp add: rostime_toSec_def rostime_subtract_def)

subsection \<open>The topic-to-paths index\<close>

lemma topicToPaths_fold:
  "map_of (fold (topicToPaths_step parseRosPath) paths out) t =
     (case map_of out t of
        None \<Rightarrow> if filter (parsesTo parseRosPath t) paths = [] then None
                else Some (filter (parsesTo parseRosPath t) paths)
      | Some e \<Rightarrow> Some (e @ filter (parsesTo parseRosPath t) paths))"
proof (induction paths arbitrary: out)
  case Nil
  then show ?case by (simp split: option.splits)
next
  case (Cons p ps)
  show ?case
    by (simp add: Cons.IH)
      (auto simp: topicToPaths_step_def parsesTo_def update_conv' Let_def split: option.splits)
qed

lemma topicToPaths_distinct_fold:
  "distinct (map fst out) \<Longrightarrow> distinct (map fst (fold (topicToPaths_step parseRosPath) paths out))"
  by (induction paths arbitrary: out)
    (auto simp: topicToPaths_step_def distinct_update Let_def split: option.splits)

text \<open>
  Claim C8. Looking a topic up in the index gives exactly the configured paths that
  parse to that topic, in the order of the path list (and nothing when there is none);
  so a path that fails to parse is listed under no topic. The index is built by a total
  function: no path makes it fail.
\<close>

theorem topicToPaths_index:
  "map_of (topicToPaths parseRosPath paths) t =
     (if filter (parsesTo parseRosPath t) paths = [] then None
      else Some (filter (parsesTo parseRosPath t) paths))
   \<and> (\<forall>(t', ps) \<in> set (topicToPaths parseRosPath paths). \<forall>p \<in> set ps. parseRosPath p \<noteq> None)"
proof -
  have d: "distinct (map fst (topicToPaths parseRosPath paths))"
    unfolding topicToPaths_def by (rule topicToPaths_distinct_fold) simp
  have l: "\<And>t. map_of (topicToPaths parseRosPath paths) t =
     (if filter (parsesTo parseRosPath t) paths = [] then None
      else Some (filter (parsesTo parseRosPath t) paths))"
    unfolding topicToPaths_def by (simp add: topicToPaths_fold)
  have "\<And>t' ps p. (t', ps) \<in> set (topicToPaths parseRosPath paths) \<Longrightarrow> p \<in> set ps
          \<Longrightarrow> parseRosPath p \<noteq> None"
  proof -
    fix t' ps p
    assume a: "(t', ps) \<in> set (topicToPaths parseRosPath paths)" and b: "p \<in> set ps"
    from d a have "map_of (topicToPaths parseRosPath paths) t' = Some ps" by simp
    with l [of t'] have "ps = filter (parsesTo parseRosPath t') paths"
      by (simp split: if_splits)
    with b show "parseRosPath p \<noteq> None"
      by (auto simp: parsesTo_def split: option.splits)
  qed
  with l show ?thesis by blast
qed

text \<open>
  A run with a parser that rejects the path \<open>bad\<close> and takes the topic up to the first
  dot: the two paths on \<open>/a\<close> are listed in their order, and \<open>bad\<close> is nowhere.
\<close>

theorem topicToPaths_index_witness:
  "topicToPaths
      (\<lambda>p. if p = ''bad'' then None else Some \<lparr>topicName = takeWhile (\<lambda>c. c \<noteq> CHR ''.'') p\<rparr>)
      [''/a.x'', ''bad'', ''/b.y'', ''/a.z'']
     = [(''/a'', [''/a.x'', ''/a.z'']), (''/b'', [''/b.y''])]
   \<and> map_of (topicToPaths
      (\<lambda>p. if p = ''bad'' then None else Some \<lparr>topicName = takeWhile (\<lambda>c. c \<noteq> CHR ''.'') p\<rparr>)
      [''/a.x'', ''bad'', ''/b.y'', ''/a.z'']) ''/a'' = Some [''/a.x'', ''/a.z'']"
  using topicToPaths_index
    [of "\<lambda>p. if p = ''bad'' then None else Some \<lparr>topicName = takeWhile (\<lambda>c. c \<noteq> CHR ''.'') p\<rparr>"
      "[''/a.x'', ''bad'', ''/b.y'', ''/a.z'']" "''/a''"]
  by (simp add: topicToPaths_def topicToPaths_step_def parsesTo_def)

subsection \<open>Restore\<close>

lemma restore_fold:
  "map_of (fold (restore_step prev) paths upd) p =
     (if p \<in> set paths \<and> map_of prev p \<noteq> None then map_of prev p else map_of upd p)"
  by (induction paths arbitrary: upd)
    (auto simp: restore_step_def update_conv' split: option.splits)

lemma restore_distinct_fold:
  "distinct (map fst upd) \<Longrightarrow> distinct (map fst (fold (restore_step prev) paths upd))"
  by (induction paths arbitrary: upd)
    (auto simp: restore_step_def distinct_update split: option.splits)



subsection \<open>Association lists and loops that can fail\<close>

lemma set_update_subset: "set (AList.update k v al) \<subseteq> insert (k, v) (set al)"
  by (induction al) auto

lemma fold_update_map_of:
  "map_of (fold (\<lambda>(k, v). AList.update k v) xs acc) p =
     (case map_of (rev xs) p of Some v \<Rightarrow> Some v | None \<Rightarrow> map_of acc p)"
  by (induction xs arbitrary: acc) (auto simp: update_conv' map_add_def split: option.splits)

lemma map_of_rev_distinct:
  "distinct (map fst xs) \<Longrightarrow> map_of (rev xs) = map_of xs"
  by (rule map_of_inject_set[THEN iffD2]) (simp_all add: distinct_rev rev_map[symmetric])

lemma spread_map_of:
  "distinct (map fst b) \<Longrightarrow> distinct (map fst a) \<Longrightarrow>
     map_of (spread a b) p = (case map_of b p of Some v \<Rightarrow> Some v | None \<Rightarrow> map_of a p)"
  by (simp add: spread_def fold_update_map_of map_of_rev_distinct split: option.splits)

lemma foldE_append:
  "foldE f s (xs @ ys) = (case foldE f s xs of Inl e \<Rightarrow> Inl e | Inr s' \<Rightarrow> foldE f s' ys)"
  by (induction xs arbitrary: s) (auto split: sum.splits)

lemma foldE_map_Pair:
  "foldE (\<lambda>st (a, b). f a st b) st (map (Pair a) bs) = foldE (f a) st bs"
  by (induction bs arbitrary: st) (auto split: sum.splits)

subsection \<open>The block accumulator\<close>

text \<open>
  The segment rule on the two runs of the specification, and one block at a time: a
  block without samples for the path changes nothing; samples are appended to the last
  range when the block before contributed as well, and start a new range otherwise.
\<close>

lemma segments_examples:
  "segments [Some [s1, s2], None, Some [s3]] = [[s1, s2], [s3]]"
  "segments [Some [s1], Some [s2]] = [[s1, s2]]"
  by (simp_all add: segments_def segmentStep_def upt_rec)

lemma segmentStep_app:
  "segmentStep st (n, c) =
     (case c of
        None \<Rightarrow> st
      | Some xs \<Rightarrow>
          (Some n,
           if (case fst st of None \<Rightarrow> False | Some j \<Rightarrow> n = Suc j) \<and> snd st \<noteq> []
           then butlast (snd st) @ [last (snd st) @ xs]
           else snd st @ [xs]))"
  by (cases c; cases "fst st") (simp_all add: segmentStep_def)

lemma segmentState_snoc:
  "foldl segmentStep (None, []) (zip [0..<length (cs @ [c])] (cs @ [c])) =
     segmentStep (foldl segmentStep (None, []) (zip [0..<length cs] cs)) (length cs, c)"
  by simp

lemma segmentState_bound:
  "fst (foldl segmentStep (None, []) (zip [0..<length cs] cs)) = Some j \<Longrightarrow> j < length cs"
proof (induction cs arbitrary: j rule: rev_induct)
  case Nil
  then show ?case by simp
next
  case (snoc c cs)
  then show ?case
    unfolding segmentState_snoc
    by (cases c) (auto simp: segmentStep_app less_Suc_eq)
qed

lemma segmentState_nonempty:
  "fst (foldl segmentStep (None, []) (zip [0..<length cs] cs)) \<noteq> None
     \<Longrightarrow> snd (foldl segmentStep (None, []) (zip [0..<length cs] cs)) \<noteq> []"
proof (induction cs rule: rev_induct)
  case Nil
  then show ?case by simp
next
  case (snoc c cs)
  then show ?case
    unfolding segmentState_snoc
    by (cases c) (auto simp: segmentStep_app)
qed

lemma segmentState_last:
  "fst (foldl segmentStep (None, []) (zip [0..<length cs] cs)) = Some (length cs - 1) \<and> cs \<noteq> []
     \<longleftrightarrow> cs \<noteq> [] \<and> last cs \<noteq> None"
proof (cases cs rule: rev_cases)
  case Nil
  then show ?thesis by simp
next
  case (snoc ds d)
  show ?thesis
  proof (cases d)
    case None
    have "fst (foldl segmentStep (None, []) (zip [0..<length ds] ds)) \<noteq> Some (length ds)"
      using segmentState_bound[of ds "length ds"] by auto
    then show ?thesis
      unfolding snoc segmentState_snoc by (simp add: None segmentStep_app)
  next
    case (Some xs)
    then show ?thesis
      unfolding snoc segmentState_snoc by (simp add: segmentStep_app)
  qed
qed

lemma segments_snoc:
  "segments (cs @ [None]) = segments cs"
  "segments (cs @ [Some xs]) =
     (if cs \<noteq> [] \<and> last cs \<noteq> None
      then butlast (segments cs) @ [last (segments cs) @ xs]
      else segments cs @ [xs])"
proof -
  let ?st = "foldl segmentStep (None, []) (zip [0..<length cs] cs)"
  show "segments (cs @ [None]) = segments cs"
    unfolding segments_def segmentState_snoc by (simp add: segmentStep_app)
  have c: "(case fst ?st of None \<Rightarrow> False | Some j \<Rightarrow> length cs = Suc j)
      \<longleftrightarrow> cs \<noteq> [] \<and> last cs \<noteq> None"
  proof -
    have "(case fst ?st of None \<Rightarrow> False | Some j \<Rightarrow> length cs = Suc j)
        \<longleftrightarrow> fst ?st = Some (length cs - 1) \<and> cs \<noteq> []"
      by (cases "fst ?st") auto
    then show ?thesis by (simp only: segmentState_last)
  qed
  have n: "cs \<noteq> [] \<and> last cs \<noteq> None \<Longrightarrow> snd ?st \<noteq> []"
    using segmentState_last[of cs] segmentState_nonempty[of cs] by auto
  show "segments (cs @ [Some xs]) =
     (if cs \<noteq> [] \<and> last cs \<noteq> None
      then butlast (segments cs) @ [last (segments cs) @ xs]
      else segments cs @ [xs])"
    unfolding segments_def segmentState_snoc
    using c n by (simp add: segmentStep_app)
qed













lemma entriesOk_Cons:
  "entriesOk s ((q, r) # es) \<longleftrightarrow>
     r < nextRef s \<and> (\<exists>m. rangeLists s r = [m] \<and> m < nextRef s) \<and> entriesOk s es"
  by (auto simp: entriesOk_def split: list.splits)






lemma blockOk_entriesOk: "blockOk s obj \<longleftrightarrow> distinct (map fst obj) \<and> entriesOk s obj"
  by (simp add: blockOk_def entriesOk_def)






text \<open>
  What \<open>getPlotDataByPath\<close> builds is a block result in the sense of \<open>blockOk\<close>: it
  holds, for each path of the decoded block, the samples made from the decoded items;
  and it stays one while the store only grows.
\<close>

lemma getPlotDataByPath_entry_props:
  "fst (getPlotDataByPath_entry g (p, items) (ret, s)) = AList.update p (Suc (nextRef s)) ret"
  "nextRef (snd (getPlotDataByPath_entry g (p, items) (ret, s))) = Suc (Suc (nextRef s))"
  "rangeLists (snd (getPlotDataByPath_entry g (p, items) (ret, s)))
     = (rangeLists s)(Suc (nextRef s) := [nextRef s])"
  "ranges (snd (getPlotDataByPath_entry g (p, items) (ret, s)))
     = (ranges s)(nextRef s := map (plotDataItemOfMessage g) items)"
  by (simp_all add: getPlotDataByPath_entry_def newRange_def newRangeList_def split: prod.splits)

lemma entriesOk_iff:
  "entriesOk s obj \<longleftrightarrow>
     (\<forall>(p, r) \<in> set obj. r < nextRef s \<and> (\<exists>m. rangeLists s r = [m] \<and> m < nextRef s))"
proof (induction obj)
  case Nil
  then show ?case by (simp add: entriesOk_def)
next
  case (Cons a obj)
  then show ?case by (cases a) (simp add: entriesOk_Cons)
qed

lemma entriesOk_grow:
  assumes "entriesOk s obj" and "nextRef s \<le> nextRef s'"
    and "\<forall>r<nextRef s. rangeLists s' r = rangeLists s r \<and> ranges s' r = ranges s r"
  shows "entriesOk s' obj"
proof -
  have "r < nextRef s' \<and> (\<exists>m. rangeLists s' r = [m] \<and> m < nextRef s')" if "(p, r) \<in> set obj" for p r
  proof -
    from assms(1) that obtain m where m: "r < nextRef s" "rangeLists s r = [m]" "m < nextRef s"
      unfolding entriesOk_iff by blast
    with assms(2,3) show ?thesis by simp
  qed
  then show ?thesis unfolding entriesOk_iff by blast
qed

lemma contribution_grow:
  assumes "entriesOk s obj"
    and "\<forall>r<nextRef s. rangeLists s' r = rangeLists s r \<and> ranges s' r = ranges s r"
  shows "contribution s' obj p = contribution s obj p"
proof (cases "map_of obj p")
  case None
  then show ?thesis by (simp add: contribution_def)
next
  case (Some r)
  then have "(p, r) \<in> set obj" by (rule map_of_SomeD)
  with assms(1) obtain m where "r < nextRef s" "rangeLists s r = [m]" "m < nextRef s"
    unfolding entriesOk_iff by blast
  with assms(2) Some show ?thesis by (simp add: contribution_def)
qed

lemma blockOk_grow:
  assumes "blockOk s obj" and "nextRef s \<le> nextRef s'"
    and "\<forall>r<nextRef s. rangeLists s' r = rangeLists s r \<and> ranges s' r = ranges s r"
  shows "blockOk s' obj"
  using assms entriesOk_grow[of s obj s'] by (simp add: blockOk_entriesOk)

lemma getPlotDataByPath_fold:
  assumes "entriesOk s ret" and "distinct (map fst ret)"
    and "fold (getPlotDataByPath_entry g) es (ret, s) = (ret', s')"
  shows "entriesOk s' ret' \<and> distinct (map fst ret') \<and> nextRef s \<le> nextRef s'
     \<and> (\<forall>r<nextRef s. rangeLists s' r = rangeLists s r \<and> ranges s' r = ranges s r)
     \<and> (\<forall>p. contribution s' ret' p =
           (case map_of (rev es) p of
              Some items \<Rightarrow> Some (map (plotDataItemOfMessage g) items)
            | None \<Rightarrow> contribution s ret p))"
  using assms
proof (induction es arbitrary: ret s)
  case Nil
  then show ?case by simp
next
  case (Cons e es)
  obtain q items where e: "e = (q, items)" by (cases e)
  obtain ret1 s1 where st: "getPlotDataByPath_entry g (q, items) (ret, s) = (ret1, s1)"
    by (cases "getPlotDataByPath_entry g (q, items) (ret, s)")
  have r1: "ret1 = AList.update q (Suc (nextRef s)) ret"
    using getPlotDataByPath_entry_props(1)[of g q items ret s] by (simp add: st)
  have pr: "nextRef s1 = Suc (Suc (nextRef s))"
    "rangeLists s1 = (rangeLists s)(Suc (nextRef s) := [nextRef s])"
    "ranges s1 = (ranges s)(nextRef s := map (plotDataItemOfMessage g) items)"
    using getPlotDataByPath_entry_props(2-4)[of g q items ret s] by (simp_all add: st)
  have fr: "\<forall>r<nextRef s. rangeLists s1 r = rangeLists s r \<and> ranges s1 r = ranges s r"
    by (simp add: pr)
  have ok0: "entriesOk s1 ret"
    by (rule entriesOk_grow[OF Cons.prems(1) _ fr]) (simp add: pr)
  have ok1: "entriesOk s1 ret1"
    unfolding entriesOk_iff
  proof (intro ballI)
    fix x assume "x \<in> set ret1"
    with set_update_subset[of q "Suc (nextRef s)" ret] r1
    consider "x = (q, Suc (nextRef s))" | "x \<in> set ret" by auto
    then show "case x of (p, r) \<Rightarrow>
        r < nextRef s1 \<and> (\<exists>m. rangeLists s1 r = [m] \<and> m < nextRef s1)"
    proof cases
      case 1
      then show ?thesis by (simp add: pr)
    next
      case 2
      with ok0 show ?thesis unfolding entriesOk_iff by blast
    qed
  qed
  have d1: "distinct (map fst ret1)"
    using Cons.prems(2) by (simp add: r1 distinct_update)
  from Cons.prems(3) have f: "fold (getPlotDataByPath_entry g) es (ret1, s1) = (ret', s')"
    by (simp add: e st)
  note ih = Cons.IH[OF ok1 d1 f]
  from ih have 1: "entriesOk s' ret'" "distinct (map fst ret')" "nextRef s1 \<le> nextRef s'"
    by blast+
  from ih have 2: "\<forall>r<nextRef s1. rangeLists s' r = rangeLists s1 r \<and> ranges s' r = ranges s1 r"
    by blast
  from ih have 3: "\<And>p. contribution s' ret' p =
           (case map_of (rev es) p of
              Some items \<Rightarrow> Some (map (plotDataItemOfMessage g) items)
            | None \<Rightarrow> contribution s1 ret1 p)"
    by blast
  have c1: "contribution s1 ret1 p =
      (if p = q then Some (map (plotDataItemOfMessage g) items) else contribution s ret p)" for p
  proof (cases "p = q")
    case True
    then show ?thesis by (simp add: contribution_def r1 update_conv' pr)
  next
    case False
    then have "contribution s1 ret1 p = contribution s1 ret p"
      by (simp add: contribution_def r1 update_conv')
    with False show ?thesis by (simp add: contribution_grow[OF Cons.prems(1) fr])
  qed
  have 4: "nextRef s \<le> nextRef s'" using 1(3) by (simp add: pr)
  have 5: "\<forall>r<nextRef s. rangeLists s' r = rangeLists s r \<and> ranges s' r = ranges s r"
    using 2 by (simp add: pr)
  have 6: "contribution s' ret' p =
           (case map_of (rev (e # es)) p of
              Some items \<Rightarrow> Some (map (plotDataItemOfMessage g) items)
            | None \<Rightarrow> contribution s ret p)" for p
    by (simp add: 3 c1 e map_add_def split: option.splits)
  from 1 4 5 6 show ?case by blast
qed

lemma getPlotDataByPath_blockOk:
  assumes "getPlotDataByPath g itemsByPath s = (obj, s')"
  shows "blockOk s' obj \<and> nextRef s \<le> nextRef s'
     \<and> (\<forall>r<nextRef s. rangeLists s' r = rangeLists s r \<and> ranges s' r = ranges s r)
     \<and> (distinct (map fst itemsByPath) \<longrightarrow>
          (\<forall>p. contribution s' obj p =
                 map_option (map (plotDataItemOfMessage g)) (map_of itemsByPath p)))"
proof -
  have c0: "contribution s [] p = None" for p by (simp add: contribution_def)
  have "entriesOk s []" by (simp add: entriesOk_def)
  have d0: "distinct (map fst ([] :: (string \<times> ref) list))" by simp
  note r = getPlotDataByPath_fold[OF \<open>entriesOk s []\<close> d0 assms[unfolded getPlotDataByPath_def]]
  from r have 1: "entriesOk s' obj" "distinct (map fst obj)" "nextRef s \<le> nextRef s'"
    "\<forall>r<nextRef s. rangeLists s' r = rangeLists s r \<and> ranges s' r = ranges s r"
    by blast+
  from r have 2: "\<And>p. contribution s' obj p =
           (case map_of (rev itemsByPath) p of
              Some items \<Rightarrow> Some (map (plotDataItemOfMessage g) items)
            | None \<Rightarrow> contribution s [] p)"
    by blast
  have "contribution s' obj p = map_option (map (plotDataItemOfMessage g)) (map_of itemsByPath p)"
    if "distinct (map fst itemsByPath)" for p
    by (simp add: 2 c0 map_of_rev_distinct[OF that] split: option.splits)
  with 1 show ?thesis by (simp add: blockOk_entriesOk)
qed



subsection \<open>The streaming reducer\<close>

lemma addMessages_event_dispatch:
  "foldE (addMessages_event cl t acc) st evs =
     foldE (\<lambda>st (ev, p). addMessages_path cl t acc ev st p) st (dispatch cl evs)"
proof (induction evs arbitrary: st)
  case Nil
  then show ?case by (simp add: dispatch_def)
next
  case (Cons ev evs)
  let ?ps = "case map_of (cl_topicToPaths cl) (topic ev) of None \<Rightarrow> [] | Some ps \<Rightarrow> map (Pair ev) ps"
  have d: "dispatch cl (ev # evs) = ?ps @ dispatch cl evs"
    by (simp add: dispatch_def)
  have e: "addMessages_event cl t acc st ev =
      foldE (\<lambda>st (ev, p). addMessages_path cl t acc ev st p) st ?ps"
    by (simp add: addMessages_event_def foldE_map_Pair split: option.splits)
  show ?case
    unfolding d foldE_append e[symmetric] by (simp add: Cons.IH split: sum.splits)
qed

lemma addMessages_path_extracted:
  "addMessages_path cl t acc ev st p =
     (case extracted cl ev p of
        None \<Rightarrow> Inr st
      | Some item \<Rightarrow>
          if cl_showSingleCurrentMessage cl then Inr (replaceItem acc p item (fst st), True)
          else (case appendItem cl t acc p item (fst st) of
                  Inl e \<Rightarrow> Inl e
                | Inr s' \<Rightarrow> Inr (s', True)))"
  by (simp add: addMessages_path_def extracted_def split: option.splits)


lemma replaceItem_props:
  "nextRef (replaceItem acc p item s) = Suc (Suc (nextRef s))"
  "objects (replaceItem acc p item s) = (objects s)(acc := AList.update p (Suc (nextRef s)) (objects s acc))"
  "rangeLists (replaceItem acc p item s) = (rangeLists s)(Suc (nextRef s) := [nextRef s])"
  "ranges (replaceItem acc p item s) = (ranges s)(nextRef s := [item])"
  by (simp_all add: replaceItem_def newRange_def newRangeList_def setProp_def)

lemma ensureRangeList_Some:
  "map_of (objects s acc) p = Some R \<Longrightarrow> ensureRangeList acc p s = (R, s)"
  by (simp add: ensureRangeList_def)

lemma ensureRangeList_None:
  assumes "map_of (objects s acc) p = None" and "ensureRangeList acc p s = (R, s1)"
  shows "R = Suc (nextRef s)" "nextRef s1 = Suc (Suc (nextRef s))"
    "objects s1 = (objects s)(acc := AList.update p (Suc (nextRef s)) (objects s acc))"
    "rangeLists s1 = (rangeLists s)(Suc (nextRef s) := [nextRef s])"
    "ranges s1 = (ranges s)(nextRef s := [])"
  using assms by (auto simp: ensureRangeList_def newRange_def newRangeList_def setProp_def)

lemma push_props:
  "nextRef (push r item s) = nextRef s" "objects (push r item s) = objects s"
  "rangeLists (push r item s) = rangeLists s"
  "ranges (push r item s) = (ranges s)(r := ranges s r @ [item])"
  by (simp_all add: push_def)

lemma truncateRange_None:
  "trimOf cl t = None \<Longrightarrow> truncateRange cl t R r0 rest s = s"
  by (auto simp: trimOf_def truncateRange_def split: option.splits ChartDefaultView.splits)

lemma truncateRange_Some:
  assumes "trimOf cl t = Some f"
  shows "nextRef (truncateRange cl t R r0 rest s) = Suc (nextRef s)"
    "objects (truncateRange cl t R r0 rest s) = objects s"
    "rangeLists (truncateRange cl t R r0 rest s) = (rangeLists s)(R := nextRef s # rest)"
    "ranges (truncateRange cl t R r0 rest s) = (ranges s)(nextRef s := f (ranges s r0))"
  using assms
  by (auto simp: trimOf_def truncateRange_def newRange_def split: option.splits ChartDefaultView.splits)


lemma ensureRangeList_nonEmpty:
  assumes "nonEmptyRangeLists s acc" and "ensureRangeList acc p s = (R, s1)"
  shows "nonEmptyRangeLists s1 acc \<and> rangeLists s1 R \<noteq> [] \<and> nextRef s \<le> nextRef s1"
proof (cases "map_of (objects s acc) p")
  case None
  show ?thesis
    using assms(1) set_update_subset[of p "Suc (nextRef s)" "objects s acc"]
    unfolding nonEmptyRangeLists_def ensureRangeList_None[OF None assms(2)] by auto
next
  case (Some R')
  then have "(p, R') \<in> set (objects s acc)" by (rule map_of_SomeD)
  then show ?thesis
    using assms Some unfolding nonEmptyRangeLists_def by (auto simp: ensureRangeList_Some)
qed

lemma truncateRange_nonEmpty:
  assumes "nonEmptyRangeLists s acc"
  shows "nonEmptyRangeLists (truncateRange cl t R r0 rest s) acc
         \<and> nextRef s \<le> nextRef (truncateRange cl t R r0 rest s)"
proof (cases "trimOf cl t")
  case None
  then show ?thesis using assms by (simp add: truncateRange_None)
next
  case (Some f)
  show ?thesis
    using assms unfolding nonEmptyRangeLists_def truncateRange_Some[OF Some] by auto
qed

lemma appendItem_nonEmpty:
  assumes "nonEmptyRangeLists s acc"
  shows "\<exists>s'. appendItem cl t acc p item s = Inr s' \<and> nonEmptyRangeLists s' acc
           \<and> nextRef s \<le> nextRef s'"
proof -
  obtain R s1 where e: "ensureRangeList acc p s = (R, s1)" by (cases "ensureRangeList acc p s")
  from ensureRangeList_nonEmpty[OF assms e] obtain r0 rest where
    1: "nonEmptyRangeLists s1 acc" "rangeLists s1 R = r0 # rest" "nextRef s \<le> nextRef s1"
    by (cases "rangeLists s1 R") auto
  from 1(1) have "nonEmptyRangeLists (push r0 item s1) acc"
    by (simp add: nonEmptyRangeLists_def push_props)
  from truncateRange_nonEmpty[OF this, of cl t R r0 rest] show ?thesis
    using e 1 by (simp add: appendItem_def push_props)
qed









lemma filterMap_filter:
  "filterMap (\<lambda>x. if P x then None else Some x) xs = filter (\<lambda>x. \<not> P x) xs"
  by (induction xs) (auto simp: filterMap_def)

lemma truncateOlder_filter:
  "truncateOlder toSec T w xs = filter (\<lambda>item. toSec T - w \<le> toSec (receiveTime item)) xs"
  by (simp add: truncateOlder_def Let_def filterMap_filter not_less)

lemma appendItem_firstRange:
  assumes "nonEmptyRangeLists s acc"
  shows "\<exists>s'. appendItem cl t acc p item s = Inr s' \<and>
           firstRange s' acc p =
             (case trimOf cl t of None \<Rightarrow> firstRange s acc p @ [item]
              | Some f \<Rightarrow> f (firstRange s acc p @ [item]))"
proof -
  obtain R s1 where e: "ensureRangeList acc p s = (R, s1)" by (cases "ensureRangeList acc p s")
  from ensureRangeList_nonEmpty[OF assms e] obtain r0 rest where
    rl: "rangeLists s1 R = r0 # rest"
    by (cases "rangeLists s1 R") auto
  have m: "map_of (objects s1 acc) p = Some R"
  proof (cases "map_of (objects s acc) p")
    case None
    show ?thesis
      unfolding ensureRangeList_None(1,3)[OF None e] by (simp add: update_conv')
  next
    case (Some R')
    with e show ?thesis by (simp add: ensureRangeList_Some)
  qed
  have f: "ranges s1 r0 = firstRange s acc p"
  proof (cases "map_of (objects s acc) p")
    case None
    from rl have "r0 = nextRef s"
      unfolding ensureRangeList_None(1,4)[OF None e] by simp
    then show ?thesis
      unfolding ensureRangeList_None(5)[OF None e] by (simp add: firstRange_def None)
  next
    case (Some R')
    with e rl show ?thesis by (simp add: ensureRangeList_Some firstRange_def)
  qed
  let ?s2 = "push r0 item s1"
  have a: "appendItem cl t acc p item s = Inr (truncateRange cl t R r0 rest ?s2)"
    using e rl by (simp add: appendItem_def)
  show ?thesis
  proof (cases "trimOf cl t")
    case None
    then show ?thesis using a m rl f
      by (simp add: truncateRange_None firstRange_def push_props)
  next
    case (Some g)
    show ?thesis using a m rl f
      by (simp add: Some firstRange_def truncateRange_Some[OF Some] push_props)
  qed
qed



text \<open>The same run through the whole reducer, which returns a new object at reference 6.\<close>

lemma addMessages_following_example:
  "\<exists>s'. addMessages (exClosure False (Some (Following 5)) []) 0 [exEvent ''/a'' 11 1] exStore
            = Inr (6, s')
     \<and> map_of (objects s' 6) ''/a.x'' = Some 1
     \<and> rangesOf s' 1 =
         [[exSample 6 1, exSample 7 1, exSample 8 1, exSample 9 1, exSample 10 1, exSample 11 1]]"
  by (simp add: reducer_defs store_defs ex_defs)

lemma samplesIn_Cons:
  "samplesIn cl ((ev, q) # pairs) p =
     (if q = p then (case extracted cl ev q of None \<Rightarrow> [] | Some item \<Rightarrow> [item]) else [])
     @ samplesIn cl pairs p"
  by (simp add: samplesIn_def split: option.splits)


lemma samplesFor_samplesIn: "samplesFor cl evs p = samplesIn cl (dispatch cl evs) p"
  by (simp add: samplesFor_def samplesIn_def)


lemma dispatch_withoutBlockPaths:
  "dispatch (withoutBlockPaths cl) evs =
     filter (\<lambda>(ev, p). p \<notin> set (cl_blockPathsMemo cl)) (dispatch cl evs)"
proof -
  have m: "map_of (cl_topicToPaths (withoutBlockPaths cl)) t =
      map_option (filter (\<lambda>p. p \<notin> set (cl_blockPathsMemo cl))) (map_of (cl_topicToPaths cl) t)" for t
    by (simp add: withoutBlockPaths_def map_of_map)
  show ?thesis
    by (induction evs) (auto simp: dispatch_def m filter_map comp_def split: option.splits)
qed

lemma withoutBlockPaths_fields:
  "cl_toSec (withoutBlockPaths cl) = cl_toSec cl"
  "cl_getTimestampForMessage (withoutBlockPaths cl) = cl_getTimestampForMessage cl"
  "cl_cachedGetMessagePathDataItems (withoutBlockPaths cl) = cl_cachedGetMessagePathDataItems cl"
  "cl_blockPathsMemo (withoutBlockPaths cl) = cl_blockPathsMemo cl"
  "cl_followingView (withoutBlockPaths cl) = cl_followingView cl"
  "cl_showSingleCurrentMessage (withoutBlockPaths cl) = cl_showSingleCurrentMessage cl"
  by (simp_all add: withoutBlockPaths_def)

lemma truncateRange_withoutBlockPaths:
  "truncateRange (withoutBlockPaths cl) t R r0 rest s = truncateRange cl t R r0 rest s"
  by (simp add: truncateRange_def withoutBlockPaths_fields
      split: option.splits ChartDefaultView.splits)

lemma appendItem_withoutBlockPaths:
  "appendItem (withoutBlockPaths cl) t acc p item s = appendItem cl t acc p item s"
  by (simp add: appendItem_def truncateRange_withoutBlockPaths
      split: prod.splits list.splits)

lemma addMessages_path_withoutBlockPaths:
  "addMessages_path (withoutBlockPaths cl) t acc ev st p = addMessages_path cl t acc ev st p"
  by (simp add: addMessages_path_def withoutBlockPaths_fields appendItem_withoutBlockPaths
      plotDataItemOfEvent_def split: option.splits)

lemma foldE_filter_skip:
  "(\<And>x s. x \<in> set xs \<Longrightarrow> \<not> P x \<Longrightarrow> f s x = Inr s) \<Longrightarrow> foldE f s (filter P xs) = foldE f s xs"
  by (induction xs arbitrary: s) (auto split: sum.splits)

lemma addMessages_withoutBlockPaths:
  "addMessages (withoutBlockPaths cl) acc evs s = addMessages cl acc evs s"
proof -
  have "foldE (pathStep cl t acc) st (filter (\<lambda>(ev, p). p \<notin> set (cl_blockPathsMemo cl)) (dispatch cl evs))
      = foldE (pathStep cl t acc) st (dispatch cl evs)" for t st
    by (rule foldE_filter_skip) (auto simp: addMessages_path_def)
  then show ?thesis
    by (simp add: addMessages_def addMessages_event_dispatch dispatch_withoutBlockPaths
        addMessages_path_withoutBlockPaths)
qed








lemma entry_fold:
  assumes "samplesIn cl pairs p = []"
    and "foldE (pathStep cl t acc) (cur, c) pairs = Inr (cur', c')"
  shows "map_of (objects cur' acc) p = map_of (objects cur acc) p"
  using assms
proof (induction pairs arbitrary: cur c)
  case Nil
  then show ?case by simp
next
  case (Cons x pairs)
  obtain ev q where x: "x = (ev, q)" by (cases x)
  from Cons.prems(1) have rest: "samplesIn cl pairs p = []"
    and hd: "q = p \<Longrightarrow> extracted cl ev q = None"
    by (auto simp: x samplesIn_Cons split: if_splits option.splits)
  from Cons.prems(2) obtain s1 c1 where
    st: "addMessages_path cl t acc ev (cur, c) q = Inr (s1, c1)"
    and f: "foldE (pathStep cl t acc) (s1, c1) pairs = Inr (cur', c')"
    by (auto simp: x split: sum.splits)
  have "map_of (objects s1 acc) p = map_of (objects cur acc) p"
  proof (cases "extracted cl ev q")
    case None
    with st show ?thesis by (simp add: addMessages_path_extracted)
  next
    case (Some item)
    with hd have qp: "q \<noteq> p" by auto
    show ?thesis
    proof (cases "cl_showSingleCurrentMessage cl")
      case True
      with st Some have "s1 = replaceItem acc q item cur"
        by (simp add: addMessages_path_extracted)
      then show ?thesis using qp by (simp add: replaceItem_props update_conv')
    next
      case False
      with st Some have a: "appendItem cl t acc q item cur = Inr s1"
        by (auto simp: addMessages_path_extracted split: sum.splits)
      obtain R s0 where e: "ensureRangeList acc q cur = (R, s0)" by (cases "ensureRangeList acc q cur")
      have o: "map_of (objects s0 acc) p = map_of (objects cur acc) p"
      proof (cases "map_of (objects cur acc) q")
        case None
        show ?thesis unfolding ensureRangeList_None(3)[OF None e] using qp by (simp add: update_conv')
      next
        case (Some R')
        with e show ?thesis by (simp add: ensureRangeList_Some)
      qed
      from a e obtain r0 rest where "s1 = truncateRange cl t R r0 rest (push r0 item s0)"
        by (auto simp: appendItem_def split: list.splits)
      moreover have "objects (truncateRange cl t R r0 rest (push r0 item s0)) = objects s0"
        by (cases "trimOf cl t") (simp_all add: truncateRange_None truncateRange_Some push_props)
      ultimately show ?thesis using o by simp
    qed
  qed
  with Cons.IH[OF rest f] show ?case by simp
qed



subsection \<open>The states of the reducer\<close>

text \<open>
  The predicate \<open>streamOk\<close> holds of the object restore makes from nothing, and restore
  and the reducer keep it; it gives the conditions \<open>nonEmptyRangeLists\<close> and
  \<open>unshared\<close> of the theorems above. Under it, a whole batch in following mode leaves
  in the first range of a path what it held and what the batch yields for it, without
  the samples older than the window.
\<close>

lemma distinct_map_alist:
  assumes "distinct (map fst al)"
  shows "distinct (map (\<lambda>(p, r). f r) al) \<longleftrightarrow>
     (\<forall>p q r r'. p \<noteq> q \<longrightarrow> (p, r) \<in> set al \<longrightarrow> (q, r') \<in> set al \<longrightarrow> f r \<noteq> f r')"
  using assms
proof (induction al)
  case Nil
  then show ?case by simp
next
  case (Cons a al)
  obtain k v where a: "a = (k, v)" by (cases a)
  from Cons.prems have k: "k \<notin> fst ` set al" and d: "distinct (map fst al)" by (auto simp: a)
  have "f v \<notin> (\<lambda>(p, r). f r) ` set al \<longleftrightarrow> (\<forall>q r'. (q, r') \<in> set al \<longrightarrow> f v \<noteq> f r')"
    by force
  moreover have "(\<forall>p q r r'. p \<noteq> q \<longrightarrow> (p, r) \<in> set (a # al) \<longrightarrow> (q, r') \<in> set (a # al) \<longrightarrow> f r \<noteq> f r')
      \<longleftrightarrow> (\<forall>q r'. (q, r') \<in> set al \<longrightarrow> f v \<noteq> f r')
        \<and> (\<forall>p q r r'. p \<noteq> q \<longrightarrow> (p, r) \<in> set al \<longrightarrow> (q, r') \<in> set al \<longrightarrow> f r \<noteq> f r')"
    (is "?L \<longleftrightarrow> ?A \<and> ?B")
  proof
    assume l: ?L
    have ?A
    proof (intro allI impI)
      fix q r' assume m: "(q, r') \<in> set al"
      with k have "k \<noteq> q" by force
      with l m show "f v \<noteq> f r'" unfolding a by (metis list.set_intros(1,2))
    qed
    moreover from l have ?B by (metis list.set_intros(2))
    ultimately show "?A \<and> ?B" ..
  next
    assume r: "?A \<and> ?B"
    show ?L
    proof (intro allI impI)
      fix p q r r' assume n: "p \<noteq> q" and m1: "(p, r) \<in> set (a # al)" and m2: "(q, r') \<in> set (a # al)"
      from k have nk: "\<And>x. (k, x) \<notin> set al" by force
      from m1 m2 n r nk show "f r \<noteq> f r'"
        unfolding a by (auto; metis)
    qed
  qed
  ultimately show ?case
    using Cons.IH[OF d] by (simp add: a)
qed

lemma streamOk_iff:
  "streamOk s acc \<longleftrightarrow>
     acc < nextRef s \<and> distinct (map fst (objects s acc)) \<and> streamInv s acc"
proof (cases "distinct (map fst (objects s acc))")
  case False
  then show ?thesis by (simp add: streamOk_def blockOk_def)
next
  case True
  let ?al = "objects s acc"
  have mem: "map_of ?al p = Some r \<longleftrightarrow> (p, r) \<in> set ?al" for p r
    using True by simp
  have dal: "distinct ?al" using True by (rule distinct_map[THEN iffD1, THEN conjunct1])
  have a: "entriesOk s ?al \<longleftrightarrow>
      (\<forall>p r. map_of ?al p = Some r \<longrightarrow>
        r < nextRef s \<and> (\<exists>r0. rangeLists s r = [r0] \<and> r0 < nextRef s))"
    unfolding entriesOk_iff mem by auto
  have sn: "(snd :: string \<times> ref \<Rightarrow> ref) = (\<lambda>(p, r). r)" by (simp add: fun_eq_iff)
  have b: "distinct (map snd ?al) \<longleftrightarrow>
      (\<forall>p q r r'. p \<noteq> q \<longrightarrow> map_of ?al p = Some r \<longrightarrow> map_of ?al q = Some r' \<longrightarrow> r \<noteq> r')"
    unfolding mem sn by (rule distinct_map_alist[OF True])
  have c: "distinct (map (\<lambda>(p, r). hd (rangeLists s r)) ?al) \<longleftrightarrow>
      (\<forall>p q r r'. p \<noteq> q \<longrightarrow> map_of ?al p = Some r \<longrightarrow> map_of ?al q = Some r' \<longrightarrow>
          hd (rangeLists s r) \<noteq> hd (rangeLists s r'))"
    unfolding mem by (rule distinct_map_alist[OF True])
  show ?thesis
    unfolding streamOk_def blockOk_entriesOk a b c streamInv_def using True by blast
qed

lemma streamInv_entry:
  assumes "streamInv s acc" and "map_of (objects s acc) p = Some r"
  shows "r < nextRef s" "\<exists>r0. rangeLists s r = [r0] \<and> r0 < nextRef s"
  using assms unfolding streamInv_def by blast+

lemma streamInv_sep:
  assumes "streamInv s acc" and "p \<noteq> q" and "map_of (objects s acc) p = Some r"
    and "map_of (objects s acc) q = Some r'"
  shows "r \<noteq> r'" "hd (rangeLists s r) \<noteq> hd (rangeLists s r')"
  using assms unfolding streamInv_def by blast+

lemma streamInvI:
  assumes "\<And>p r. map_of (objects s acc) p = Some r \<Longrightarrow>
        r < nextRef s \<and> (\<exists>r0. rangeLists s r = [r0] \<and> r0 < nextRef s)"
    and "\<And>p q r r'. p \<noteq> q \<Longrightarrow> map_of (objects s acc) p = Some r \<Longrightarrow>
          map_of (objects s acc) q = Some r' \<Longrightarrow>
            r \<noteq> r' \<and> hd (rangeLists s r) \<noteq> hd (rangeLists s r')"
  shows "streamInv s acc"
  unfolding streamInv_def using assms by blast

lemma streamOk_nonEmpty: "streamOk s acc \<Longrightarrow> nonEmptyRangeLists s acc"
proof -
  assume a: "streamOk s acc"
  then have d: "distinct (map fst (objects s acc))" and i: "streamInv s acc"
    by (simp_all add: streamOk_iff)
  have "rangeLists s r \<noteq> []" if "(p, r) \<in> set (objects s acc)" for p r
  proof -
    from that d have "map_of (objects s acc) p = Some r" by simp
    from streamInv_entry(2)[OF i this] show ?thesis by auto
  qed
  then show ?thesis unfolding nonEmptyRangeLists_def by blast
qed

lemma streamInv_alloc:
  assumes "streamInv s acc"
    and "objects s' acc = AList.update q (Suc (nextRef s)) (objects s acc)"
    and "rangeLists s' = (rangeLists s)(Suc (nextRef s) := [nextRef s])"
    and "nextRef s' = Suc (Suc (nextRef s))"
  shows "streamInv s' acc"
proof (rule streamInvI)
  let ?s' = s'
  let ?n = "nextRef s"
  note replaceItem_props = assms(2-4)
  have old: "r < ?n \<and> (\<exists>r0. rangeLists s r = [r0] \<and> r0 < ?n)"
    if "map_of (objects s acc) p = Some r" for p r
    using streamInv_entry[OF assms(1) that] by blast
  {
    fix p r assume a: "map_of (objects ?s' acc) p = Some r"
    show "r < nextRef ?s' \<and> (\<exists>r0. rangeLists ?s' r = [r0] \<and> r0 < nextRef ?s')"
    proof (cases "p = q")
      case True
      with a have "r = Suc ?n" by (simp add: replaceItem_props update_conv')
      then show ?thesis by (simp add: replaceItem_props)
    next
      case False
      with a have "map_of (objects s acc) p = Some r" by (simp add: replaceItem_props update_conv')
      from old[OF this] show ?thesis by (auto simp: replaceItem_props)
    qed
  next
    fix p p' r r' assume n: "p \<noteq> p'" and a: "map_of (objects ?s' acc) p = Some r"
      and b: "map_of (objects ?s' acc) p' = Some r'"
    have new: "r1 \<noteq> Suc ?n \<and> hd (rangeLists ?s' r1) \<noteq> ?n \<and> hd (rangeLists ?s' r1) = hd (rangeLists s r1)"
      if "map_of (objects s acc) p1 = Some r1" for p1 r1
      using old[OF that] by (auto simp: replaceItem_props)
    show "r \<noteq> r' \<and> hd (rangeLists ?s' r) \<noteq> hd (rangeLists ?s' r')"
    proof (cases "p = q")
      case True
      with a n b have "r = Suc ?n" "map_of (objects s acc) p' = Some r'"
        by (auto simp: replaceItem_props update_conv')
      with new[of p' r'] show ?thesis by (auto simp: replaceItem_props)
    next
      case False
      note pq = this
      show ?thesis
      proof (cases "p' = q")
        case True
        with a n b have "r' = Suc ?n" "map_of (objects s acc) p = Some r"
          by (auto simp: replaceItem_props update_conv')
        with new[of p r] show ?thesis by (auto simp: replaceItem_props)
      next
        case False
        with a b pq have c: "map_of (objects s acc) p = Some r" "map_of (objects s acc) p' = Some r'"
          by (auto simp: replaceItem_props update_conv')
        from streamInv_sep[OF assms(1) n c] new[OF c(1)] new[OF c(2)] show ?thesis by simp
      qed
    qed
  }
qed

lemma streamInv_replaceItem:
  "streamInv s acc \<Longrightarrow> streamInv (replaceItem acc q item s) acc"
  by (rule streamInv_alloc) (simp_all add: replaceItem_props)

lemma firstRange_alloc:
  assumes "streamInv s acc" and "p \<noteq> q"
    and "objects s' acc = AList.update q (Suc (nextRef s)) (objects s acc)"
    and "rangeLists s' = (rangeLists s)(Suc (nextRef s) := [nextRef s])"
    and "ranges s' = (ranges s)(nextRef s := xs)"
  shows "firstRange s' acc p = firstRange s acc p"
proof (cases "map_of (objects s acc) p")
  case None
  with assms(2) show ?thesis by (simp add: firstRange_def assms(3) update_conv')
next
  case (Some r)
  from streamInv_entry[OF assms(1) Some] obtain r0 where
    "r < nextRef s" "rangeLists s r = [r0]" "r0 < nextRef s" by blast
  with assms(2) Some show ?thesis by (simp add: firstRange_def assms(3-5) update_conv')
qed

lemma streamInv_cong:
  assumes "objects s' acc = objects s acc" and "rangeLists s' = rangeLists s"
    and "nextRef s' = nextRef s"
  shows "streamInv s' acc = streamInv s acc"
  by (simp add: streamInv_def assms)

lemma streamInv_ensureRangeList:
  assumes "streamInv s acc" and "ensureRangeList acc q s = (r, s1)"
  shows "streamInv s1 acc \<and> map_of (objects s1 acc) q = Some r"
proof (cases "map_of (objects s acc) q")
  case None
  note e = ensureRangeList_None[OF None assms(2)]
  have "streamInv s1 acc"
    by (rule streamInv_alloc[OF assms(1)]) (simp_all add: e)
  moreover have "map_of (objects s1 acc) q = Some r"
    unfolding e(1,3) by (simp add: update_conv')
  ultimately show ?thesis ..
next
  case (Some r')
  with assms show ?thesis by (simp add: ensureRangeList_Some)
qed

lemma streamInv_truncateRange:
  assumes "streamInv s acc" and "map_of (objects s acc) q = Some r"
  shows "streamInv (truncateRange cl t r r0 [] s) acc"
proof (cases "trimOf cl t")
  case None
  with assms show ?thesis by (simp add: truncateRange_None)
next
  case (Some f)
  let ?s' = "truncateRange cl t r r0 [] s"
  let ?n = "nextRef s"
  note pr = truncateRange_Some[OF Some, of r r0 "[]" s]
  have old: "r1 < ?n \<and> (\<exists>x. rangeLists s r1 = [x] \<and> x < ?n)"
    if "map_of (objects s acc) p = Some r1" for p r1
    using streamInv_entry[OF assms(1) that] by blast
  show ?thesis
  proof (rule streamInvI)
    fix p r1 assume "map_of (objects ?s' acc) p = Some r1"
    then have "map_of (objects s acc) p = Some r1" by (simp add: pr)
    from old[OF this] show "r1 < nextRef ?s' \<and> (\<exists>x. rangeLists ?s' r1 = [x] \<and> x < nextRef ?s')"
      by (auto simp: pr)
  next
    fix p p' r1 r1' assume n: "p \<noteq> p'" and "map_of (objects ?s' acc) p = Some r1"
      and "map_of (objects ?s' acc) p' = Some r1'"
    then have c: "map_of (objects s acc) p = Some r1" "map_of (objects s acc) p' = Some r1'"
      by (simp_all add: pr)
    from streamInv_sep[OF assms(1) n c] old[OF c(1)] old[OF c(2)]
    show "r1 \<noteq> r1' \<and> hd (rangeLists ?s' r1) \<noteq> hd (rangeLists ?s' r1')"
      by (auto simp: pr)
  qed
qed

lemma streamInv_appendItem:
  assumes "streamInv s acc"
  shows "\<exists>s'. appendItem cl t acc q item s = Inr s' \<and> streamInv s' acc"
proof -
  obtain r s1 where e: "ensureRangeList acc q s = (r, s1)" by (cases "ensureRangeList acc q s")
  from streamInv_ensureRangeList[OF assms e] have
    i1: "streamInv s1 acc" and m: "map_of (objects s1 acc) q = Some r" by auto
  from streamInv_entry(2)[OF i1 m] obtain r0 where rl: "rangeLists s1 r = [r0]" by blast
  have a: "appendItem cl t acc q item s = Inr (truncateRange cl t r r0 [] (push r0 item s1))"
    by (simp add: appendItem_def e rl)
  have "streamInv (push r0 item s1) acc = streamInv s1 acc"
    by (rule streamInv_cong) (simp_all add: push_props)
  with i1 have i2: "streamInv (push r0 item s1) acc" by simp
  have "map_of (objects (push r0 item s1) acc) q = Some r" using m by (simp add: push_props)
  from streamInv_truncateRange[OF i2 this] a show ?thesis by simp
qed

lemma firstRange_replaceItem:
  assumes "streamInv s acc"
  shows "firstRange (replaceItem acc q item s) acc p =
     (if p = q then [item] else firstRange s acc p)"
proof (cases "p = q")
  case True
  then show ?thesis by (simp add: firstRange_def replaceItem_props update_conv')
next
  case False
  then show ?thesis
    using firstRange_alloc[OF assms False, of "replaceItem acc q item s" "[item]"]
    by (simp add: replaceItem_props)
qed

lemma firstRange_appendItem_other:
  assumes "streamInv s acc" and "p \<noteq> q" and "appendItem cl t acc q item s = Inr s'"
  shows "firstRange s' acc p = firstRange s acc p"
proof -
  obtain r s1 where e: "ensureRangeList acc q s = (r, s1)" by (cases "ensureRangeList acc q s")
  from streamInv_ensureRangeList[OF assms(1) e] have
    i1: "streamInv s1 acc" and m: "map_of (objects s1 acc) q = Some r" by auto
  from streamInv_entry(2)[OF i1 m] obtain r0 where rl: "rangeLists s1 r = [r0]" by blast
  from assms(3) have s': "s' = truncateRange cl t r r0 [] (push r0 item s1)"
    by (simp add: appendItem_def e rl)
  have 1: "firstRange s1 acc p = firstRange s acc p"
  proof (cases "map_of (objects s acc) q")
    case None
    note en = ensureRangeList_None[OF None e]
    show ?thesis
      by (rule firstRange_alloc[OF assms(1,2)]) (simp_all add: en)
  next
    case (Some r')
    with e show ?thesis by (simp add: ensureRangeList_Some)
  qed
  have 2: "firstRange s' acc p = firstRange s1 acc p"
  proof (cases "map_of (objects s1 acc) p")
    case None
    have "objects s' = objects s1"
      unfolding s' by (cases "trimOf cl t") (simp_all add: truncateRange_None truncateRange_Some push_props)
    with None show ?thesis by (simp add: firstRange_def)
  next
    case (Some rp)
    from streamInv_entry[OF i1 Some] obtain x where
      x: "rp < nextRef s1" "rangeLists s1 rp = [x]" "x < nextRef s1" by blast
    from streamInv_sep[OF i1 assms(2) Some m] x rl have ne: "rp \<noteq> r" "x \<noteq> r0" by auto
    show ?thesis
    proof (cases "trimOf cl t")
      case None
      then show ?thesis
        using Some x ne by (simp add: s' truncateRange_None firstRange_def push_props)
    next
      case (Some f)
      show ?thesis
        using \<open>map_of (objects s1 acc) p = Some rp\<close> x ne
        by (simp add: s' truncateRange_Some[OF Some] firstRange_def push_props)
    qed
  qed
  from 1 2 show ?thesis by simp
qed

lemma stream_step:
  assumes "streamOk s acc"
  shows "\<exists>s' c'. addMessages_path cl t acc ev (s, c) q = Inr (s', c') \<and> streamOk s' acc
     \<and> (c' \<longleftrightarrow> c \<or> extracted cl ev q \<noteq> None)
     \<and> (\<forall>p. firstRange s' acc p =
           (if p = q then appendAll cl t (firstRange s acc p)
                            (case extracted cl ev q of None \<Rightarrow> [] | Some item \<Rightarrow> [item])
            else firstRange s acc p))"
proof -
  from assms have lt: "acc < nextRef s" and d: "distinct (map fst (objects s acc))"
    and i: "streamInv s acc" by (simp_all add: streamOk_iff)
  note ne = streamOk_nonEmpty[OF assms]
  show ?thesis
  proof (cases "extracted cl ev q")
    case None
    with assms show ?thesis by (simp add: addMessages_path_extracted appendAll_def)
  next
    case (Some item)
    show ?thesis
    proof (cases "cl_showSingleCurrentMessage cl")
      case True
      let ?s' = "replaceItem acc q item s"
      have "streamOk ?s' acc"
        unfolding streamOk_iff using lt d streamInv_replaceItem[OF i, of q item]
        by (simp add: replaceItem_props distinct_update)
      then show ?thesis
        using Some True by (auto simp add: addMessages_path_extracted firstRange_replaceItem[OF i] appendAll_def)
    next
      case False
      from streamInv_appendItem[OF i, of cl t q item] obtain s' where
        a: "appendItem cl t acc q item s = Inr s'" and i': "streamInv s' acc" by blast
      from appendItem_nonEmpty[OF ne, of cl t q item] a have n: "nextRef s \<le> nextRef s'" by simp
      from appendItem_firstRange[OF ne, of cl t q item] a have
        f: "firstRange s' acc q =
             (case trimOf cl t of None \<Rightarrow> firstRange s acc q @ [item]
              | Some f \<Rightarrow> f (firstRange s acc q @ [item]))" by simp
      have k: "distinct (map fst (objects s' acc))"
      proof -
        obtain r s1 where e: "ensureRangeList acc q s = (r, s1)" by (cases "ensureRangeList acc q s")
        have "distinct (map fst (objects s1 acc))"
        proof (cases "map_of (objects s acc) q")
          case None
          show ?thesis unfolding ensureRangeList_None(3)[OF None e] using d by (simp add: distinct_update)
        next
          case (Some r')
          with e d show ?thesis by (simp add: ensureRangeList_Some)
        qed
        moreover from a e obtain r0 rest where "s' = truncateRange cl t r r0 rest (push r0 item s1)"
          by (auto simp: appendItem_def split: list.splits)
        moreover have "objects (truncateRange cl t r r0 rest (push r0 item s1)) = objects s1" for r0 rest
          by (cases "trimOf cl t") (simp_all add: truncateRange_None truncateRange_Some push_props)
        ultimately show ?thesis by simp
      qed
      have "streamOk s' acc"
        unfolding streamOk_iff using lt n k i' by simp
      moreover have "firstRange s' acc p = firstRange s acc p" if "p \<noteq> q" for p
        by (rule firstRange_appendItem_other[OF i that a])
      ultimately show ?thesis
        using Some False a f by (auto simp add: addMessages_path_extracted appendAll_def)
    qed
  qed
qed

lemma appendAll_append:
  "appendAll cl t xs (ys @ zs) = appendAll cl t (appendAll cl t xs ys) zs"
  by (simp add: appendAll_def)

lemma stream_fold:
  assumes "streamOk s acc"
  shows "\<exists>s' c'. foldE (pathStep cl t acc) (s, c) pairs = Inr (s', c') \<and> streamOk s' acc
     \<and> (c' \<longleftrightarrow> c \<or> (\<exists>(ev, p) \<in> set pairs. extracted cl ev p \<noteq> None))
     \<and> (\<forall>p. firstRange s' acc p = appendAll cl t (firstRange s acc p) (samplesIn cl pairs p))"
  using assms
proof (induction pairs arbitrary: s c)
  case Nil
  then show ?case by (simp add: samplesIn_def appendAll_def)
next
  case (Cons x pairs)
  obtain ev q where x: "x = (ev, q)" by (cases x)
  from stream_step[OF Cons.prems, of cl t ev c q] obtain s1 c1 where
    1: "addMessages_path cl t acc ev (s, c) q = Inr (s1, c1)" and ok1: "streamOk s1 acc"
    and c1: "c1 \<longleftrightarrow> c \<or> extracted cl ev q \<noteq> None"
    and f1: "\<And>p. firstRange s1 acc p =
           (if p = q then appendAll cl t (firstRange s acc p)
                            (case extracted cl ev q of None \<Rightarrow> [] | Some item \<Rightarrow> [item])
            else firstRange s acc p)"
    by blast
  from Cons.IH[OF ok1, of c1] obtain s' c' where
    2: "foldE (pathStep cl t acc) (s1, c1) pairs = Inr (s', c')" and ok': "streamOk s' acc"
    and c': "c' \<longleftrightarrow> c1 \<or> (\<exists>(ev, p) \<in> set pairs. extracted cl ev p \<noteq> None)"
    and f': "\<And>p. firstRange s' acc p = appendAll cl t (firstRange s1 acc p) (samplesIn cl pairs p)"
    by blast
  have 3: "foldE (pathStep cl t acc) (s, c) (x # pairs) = Inr (s', c')"
    by (simp add: x 1 2)
  have 4: "c' \<longleftrightarrow> c \<or> (\<exists>(ev, p) \<in> set (x # pairs). extracted cl ev p \<noteq> None)"
    using c1 c' by (auto simp: x)
  have 5: "firstRange s' acc p = appendAll cl t (firstRange s acc p) (samplesIn cl (x # pairs) p)" for p
    unfolding f'[of p] f1[of p] x samplesIn_Cons appendAll_append
    by (simp add: appendAll_def)
  from 3 ok' 4 5 show ?case by blast
qed

lemma streamOk_newObject:
  assumes "streamOk s acc"
  shows "streamOk (snd (newObject (objects s acc) s)) (fst (newObject (objects s acc) s))"
proof -
  let ?s' = "snd (newObject (objects s acc) s)"
  have f: "nextRef ?s' = Suc (nextRef s)" "objects ?s' (nextRef s) = objects s acc"
    "rangeLists ?s' = rangeLists s" "fst (newObject (objects s acc) s) = nextRef s"
    by (simp_all add: newObject_def)
  from assms have "blockOk s (objects s acc)" by (simp add: streamOk_def)
  then have "blockOk ?s' (objects s acc)"
    by (rule blockOk_grow) (simp_all add: newObject_def)
  with assms show ?thesis by (simp add: streamOk_def f)
qed

lemma firstRange_cong:
  assumes "objects s' r' = objects s acc" and "rangeLists s' = rangeLists s"
    and "ranges s' = ranges s"
  shows "firstRange s' r' p = firstRange s acc p"
  by (simp add: firstRange_def assms split: option.splits list.splits)

lemma addMessages_streamOk:
  assumes "streamOk s acc"
  shows "\<exists>r' s'. addMessages cl acc evs s = Inr (r', s') \<and> streamOk s' r'
     \<and> (\<forall>p. firstRange s' r' p =
           appendAll cl (if evs = [] then None else Some (eventReceiveTime (last evs)))
             (firstRange s acc p) (samplesFor cl evs p))"
proof -
  define t where "t = (if evs = [] then None else Some (eventReceiveTime (last evs)))"
  from stream_fold[OF assms, of cl t False "dispatch cl evs"] obtain s1 c1 where
    f: "foldE (pathStep cl t acc) (s, False) (dispatch cl evs) = Inr (s1, c1)"
    and ok: "streamOk s1 acc"
    and fr: "\<And>p. firstRange s1 acc p = appendAll cl t (firstRange s acc p) (samplesFor cl evs p)"
    unfolding samplesFor_samplesIn by blast
  show ?thesis
  proof (cases c1)
    case False
    then have "addMessages cl acc evs s = Inr (acc, s1)"
      by (simp add: addMessages_def addMessages_event_dispatch Let_def t_def[symmetric] f)
    then show ?thesis using ok fr by (simp add: t_def)
  next
    case True
    then have a: "addMessages cl acc evs s = Inr (newObject (objects s1 acc) s1)"
      by (simp add: addMessages_def addMessages_event_dispatch Let_def t_def[symmetric] f)
    obtain r' s' where n: "newObject (objects s1 acc) s1 = (r', s')"
      by (cases "newObject (objects s1 acc) s1")
    from streamOk_newObject[OF ok] n have "streamOk s' r'" by simp
    moreover have "firstRange s' r' p = firstRange s1 acc p" for p
      by (rule firstRange_cong) (use n in \<open>auto simp: newObject_def\<close>)
    ultimately show ?thesis using a n fr by (simp add: t_def)
  qed
qed

lemma appendAll_following:
  assumes "\<not> cl_showSingleCurrentMessage cl" and "cl_followingView cl = Some (Following W)"
  shows "appendAll cl (Some T) xs items =
     (if items = [] then xs
      else filter (\<lambda>item. cl_toSec cl T - W \<le> cl_toSec cl (receiveTime item)) (xs @ items))"
proof (induction items arbitrary: xs)
  case Nil
  then show ?case by (simp add: appendAll_def)
next
  case (Cons a items)
  have t: "trimOf cl (Some T) = Some (truncateOlder (cl_toSec cl) T W)"
    using assms(2) by (simp add: trimOf_def)
  have "appendAll cl (Some T) xs (a # items) =
      appendAll cl (Some T)
        (filter (\<lambda>item. cl_toSec cl T - W \<le> cl_toSec cl (receiveTime item)) (xs @ [a])) items"
    using assms(1) by (simp add: appendAll_def t truncateOlder_filter)
  then show ?case by (simp add: Cons.IH)
qed

lemma addMessages_following_batch:
  assumes "streamOk s accumulated" and "\<not> cl_showSingleCurrentMessage cl"
    and "cl_followingView cl = Some (Following W)" and "msgEvents \<noteq> []"
  shows "\<exists>r' s'. addMessages cl accumulated msgEvents s = Inr (r', s') \<and> streamOk s' r'
     \<and> firstRange s' r' path =
         (if samplesFor cl msgEvents path = [] then firstRange s accumulated path
          else filter (\<lambda>item. cl_toSec cl (eventReceiveTime (last msgEvents)) - W
                                 \<le> cl_toSec cl (receiveTime item))
                 (firstRange s accumulated path @ samplesFor cl msgEvents path))"
  using addMessages_streamOk[OF assms(1), of cl msgEvents] assms(4)
  by (auto simp: appendAll_following[OF assms(2,3)])

lemma streamOk_unshared:
  assumes "streamOk s acc"
  shows "unshared s acc p"
proof (cases "map_of (objects s acc) p")
  case None
  then show ?thesis by (simp add: unshared_def)
next
  case (Some rp)
  from assms have d: "distinct (map fst (objects s acc))" and i: "streamInv s acc"
    by (simp_all add: streamOk_iff)
  from streamInv_entry[OF i Some] obtain x where
    x: "rp < nextRef s" "rangeLists s rp = [x]" "x < nextRef s" by blast
  have "r \<noteq> rp \<and> (case rangeLists s r of [] \<Rightarrow> True | r0 # rest \<Rightarrow> r0 \<notin> set (rangeLists s rp))"
    if "(q, r) \<in> set (objects s acc)" "q \<noteq> p" for q r
  proof -
    from that(1) d have m: "map_of (objects s acc) q = Some r" by simp
    from streamInv_entry(2)[OF i m] obtain y where y: "rangeLists s r = [y]" by blast
    from streamInv_sep[OF i that(2) m Some] x y show ?thesis by simp
  qed
  with Some x show ?thesis by (auto simp: unshared_def)
qed

lemma restoreObject_streamOk:
  assumes "case previous of None \<Rightarrow> True | Some prev \<Rightarrow> streamOk s prev"
    and "restoreObject paths previous s = (r', s')"
  shows "streamOk s' r'"
proof (cases previous)
  case None
  with assms(2) show ?thesis
    by (auto simp: restoreObject_def restore_def newObject_def streamOk_def blockOk_def)
next
  case (Some prev)
  with assms(1) have ok: "streamOk s prev" by simp
  then have i: "streamInv s prev" by (simp add: streamOk_iff)
  let ?obj = "restore paths (Some (objects s prev))"
  from assms(2) Some have r1: "r' = nextRef s"
    and r: "nextRef s' = Suc (nextRef s)" "objects s' r' = ?obj" "rangeLists s' = rangeLists s"
    by (auto simp: restoreObject_def newObject_def)
  have m: "map_of ?obj p = (if p \<in> set paths then map_of (objects s prev) p else None)" for p
    by (simp add: restore_def restore_fold)
  have d: "distinct (map fst ?obj)"
    by (simp add: restore_def restore_distinct_fold)
  have "streamInv s' r'"
  proof (rule streamInvI)
    fix p r assume "map_of (objects s' r') p = Some r"
    then have "map_of (objects s prev) p = Some r" by (simp add: r m split: if_splits)
    from streamInv_entry[OF i this] show "r < nextRef s' \<and> (\<exists>r0. rangeLists s' r = [r0] \<and> r0 < nextRef s')"
      by (auto simp: r less_Suc_eq)
  next
    fix p q r ra assume n: "p \<noteq> q" and "map_of (objects s' r') p = Some r"
      and "map_of (objects s' r') q = Some ra"
    then have c: "map_of (objects s prev) p = Some r" "map_of (objects s prev) q = Some ra"
      by (simp_all add: r m split: if_splits)
    from streamInv_sep[OF i n c] show "r \<noteq> ra \<and> hd (rangeLists s' r) \<noteq> hd (rangeLists s' ra)"
      by (simp add: r)
  qed
  with d r r1 show ?thesis by (simp add: streamOk_iff)
qed

lemma exStore_streamOk: "streamOk exStore 0"
  by (simp add: streamOk_def blockOk_def exStore_def)

lemma addMessages_entry_unchanged:
  assumes "samplesFor cl evs p = []" and "addMessages cl acc evs s = Inr (r', s')"
  shows "map_of (objects s' r') p = map_of (objects s acc) p"
proof -
  define t where "t = (if evs = [] then None else Some (eventReceiveTime (last evs)))"
  from assms(2) obtain s1 c1 where
    f: "foldE (pathStep cl t acc) (s, False) (dispatch cl evs) = Inr (s1, c1)"
    and r: "(r', s') = (if \<not> c1 then (acc, s1) else newObject (objects s1 acc) s1)"
    by (auto simp: addMessages_def addMessages_event_dispatch Let_def t_def[symmetric]
        split: sum.splits if_splits)
  have u: "samplesIn cl (dispatch cl evs) p = []"
    using assms(1) by (simp add: samplesFor_samplesIn)
  have "map_of (objects s1 acc) p = map_of (objects s acc) p"
    by (rule entry_fold[OF u f])
  with r show ?thesis by (auto simp: newObject_def split: if_splits)
qed

lemma samplesIn_served:
  "p \<in> set (cl_blockPathsMemo cl) \<Longrightarrow> samplesIn cl pairs p = []"
  by (induction pairs) (auto simp: samplesIn_def extracted_def)


subsection \<open>Merge and block precedence\<close>

text \<open>
  Claim C4. Let the reducer's block paths be the keys of the block-derived data, and
  let a path have an entry there. Then the step of the reducer for this path and any
  event changes nothing, a batch yields no sample for the path, the reducer runs as if
  the paths served by the blocks were not in the index, and the entry of the path in
  the mapping it returns is the one the accumulated object had. In the merged mapping
  the path has the entry of the block-derived data; in general a path has its block
  entry if there is one and its stream entry otherwise.
\<close>

theorem block_precedence:
  assumes "cl_blockPathsMemo cl = blockPaths blockData"
    and "path \<in> set (blockPaths blockData)"
    and "distinct (map fst blockData)" and "distinct (map fst streamData)"
  shows "addMessages_path cl t accumulated msgEvent st path = Inr st
     \<and> samplesFor cl msgEvents path = []
     \<and> addMessages cl accumulated msgEvents s = addMessages (withoutBlockPaths cl) accumulated msgEvents s
     \<and> (\<forall>r' s'. addMessages cl accumulated msgEvents s = Inr (r', s') \<longrightarrow>
           map_of (objects s' r') path = map_of (objects s accumulated) path)
     \<and> map_of (allPlotData streamData blockData) path = map_of blockData path
     \<and> (\<forall>p. map_of (allPlotData streamData blockData) p =
              (case map_of blockData p of Some v \<Rightarrow> Some v | None \<Rightarrow> map_of streamData p))"
proof -
  from assms(1,2) have m: "path \<in> set (cl_blockPathsMemo cl)" by simp
  then have 1: "addMessages_path cl t accumulated msgEvent st path = Inr st"
    by (simp add: addMessages_path_def)
  from m have 2: "samplesFor cl msgEvents path = []"
    by (simp add: samplesFor_samplesIn samplesIn_served)
  have 3: "addMessages cl accumulated msgEvents s =
      addMessages (withoutBlockPaths cl) accumulated msgEvents s"
    by (simp add: addMessages_withoutBlockPaths)
  have 4: "\<forall>r' s'. addMessages cl accumulated msgEvents s = Inr (r', s') \<longrightarrow>
           map_of (objects s' r') path = map_of (objects s accumulated) path"
    using addMessages_entry_unchanged[OF 2] by blast
  have 6: "\<forall>p. map_of (allPlotData streamData blockData) p =
              (case map_of blockData p of Some v \<Rightarrow> Some v | None \<Rightarrow> map_of streamData p)"
    using assms(3,4) by (simp add: allPlotData_def spread_map_of)
  from assms(2) have "map_of blockData path \<noteq> None"
    by (simp add: blockPaths_def map_of_eq_None_iff)
  then obtain v where "map_of blockData path = Some v" by auto
  with 6 have 5: "map_of (allPlotData streamData blockData) path = map_of blockData path"
    by simp
  from 1 2 3 4 5 6 show ?thesis by blast
qed

text \<open>
  A run: \<open>/a.x\<close> is served by the blocks (range list 7). The batch has an event for it
  and one for \<open>/b.y\<close>; the entry of \<open>/a.x\<close> stays the range list 1, and the merged
  mapping shows the range list 7 for \<open>/a.x\<close> and the stream's for \<open>/b.y\<close>.
\<close>

theorem block_precedence_witness:
  "(\<exists>r' s'. addMessages (exClosure False None (blockPaths [(''/a.x'', 7)])) 0
        [exEvent ''/a'' 11 1, exEvent ''/b'' 12 5] exStore = Inr (r', s')
      \<and> map_of (objects s' r') ''/a.x'' = Some 1
      \<and> map_of (allPlotData (objects s' r') [(''/a.x'', 7)]) ''/a.x'' = Some 7
      \<and> map_of (allPlotData (objects s' r') [(''/a.x'', 7)]) ''/b.y'' = Some 3)
   \<and> samplesFor (exClosure False None (blockPaths [(''/a.x'', 7)]))
        [exEvent ''/a'' 11 1, exEvent ''/b'' 12 5] ''/a.x'' = []"
proof -
  let ?cl = "exClosure False None (blockPaths [(''/a.x'', 7)])"
  let ?evs = "[exEvent ''/a'' 11 1, exEvent ''/b'' 12 5]"
  have 1: "cl_blockPathsMemo ?cl = blockPaths [(''/a.x'', 7)]" by (simp add: exClosure_def)
  have 2: "''/a.x'' \<in> set (blockPaths [(''/a.x'', 7::nat)])" by (simp add: blockPaths_def)
  have 3: "distinct (map fst [(''/a.x'', 7::nat)])" by simp
  obtain r' s' where a: "addMessages ?cl 0 ?evs exStore = Inr (r', s')"
    and o: "objects s' r' = [(''/a.x'', 1), (''/b.y'', 3)]"
    by (simp add: reducer_defs store_defs ex_defs blockPaths_def)
  have 4: "distinct (map fst (objects s' r'))" by (simp add: o)
  from block_precedence [OF 1 2 3 4, of None 0 "exEvent ''/a'' 11 1" "(exStore, False)" ?evs exStore]
  show ?thesis using a by (auto simp: o exStore_def)
qed

subsection \<open>Single-current-message mode\<close>






end
